theory Spec2Isabelle
  imports Complex_Main "HOL-Library.Code_Target_Numeral"
begin

section \<open>The random map picker\<close>

text \<open>
  The script of \<^verbatim>\<open>src/routes/+page.svelte\<close> asks the BeatSaver catalogue for its latest
  map, reads that map's hexadecimal id as an upper bound, and then probes up to ten random
  ids below the bound until one exists. This theory embeds the script's functions
  (\<^verbatim>\<open>fetchLatestMapId\<close>, \<^verbatim>\<open>checkMapExists\<close>, \<^verbatim>\<open>hexToDecimal\<close>, \<^verbatim>\<open>decimalToHex\<close>,
  \<^verbatim>\<open>getRandomNumber\<close>, \<^verbatim>\<open>findRandomMap\<close>) and proves what a search does.
\<close>

subsection \<open>Numbers\<close>

text \<open>
  A JavaScript \<^verbatim>\<open>number\<close> is an IEEE 754 double. Apart from one product, the script only
  computes integer-valued ones, \<^verbatim>\<open>NaN\<close> and the infinities, so these are the values of
  the model. \<open>Num n\<close> stands for the double with the integer value \<open>n\<close>; negative zero is
  not told apart from zero (both print as \<^verbatim>\<open>"0"\<close> and add alike).
\<close>

datatype number = NaN | Infinity | NegInfinity | Num int

fun negate :: "number \<Rightarrow> number" where
  "negate NaN = NaN"
| "negate Infinity = NegInfinity"
| "negate NegInfinity = Infinity"
| "negate (Num n) = Num (- n)"

text \<open>
  A double has 53 significant binary digits. \<open>bitLength n\<close> is the number of binary
  digits of \<open>n\<close>, and \<open>round53 n\<close> is \<open>n\<close> rounded to 53 significant digits the IEEE way:
  to the nearest such value, a tie going to the one whose last kept digit is even.
  \<open>roundsUp n\<close> tells whether the digits that are cut off make the kept part go up.
\<close>

function bitLength :: "nat \<Rightarrow> nat" where
  "bitLength n = (if n = 0 then 0 else Suc (bitLength (n div 2)))"
  by pat_completeness auto
termination
  by (relation "measure id") auto

declare bitLength.simps [simp del]

definition roundsUp :: "nat \<Rightarrow> bool" where
  "roundsUp n \<longleftrightarrow>
     (let sh = bitLength n - 53;
          q = n div 2 ^ sh;
          r = n mod 2 ^ sh;
          half = 2 ^ (sh - 1)
      in half < r \<or> (r = half \<and> odd q))"

definition round53 :: "nat \<Rightarrow> nat" where
  "round53 n =
     (if bitLength n \<le> 53 then n
      else
        let sh = bitLength n - 53;
            q = n div 2 ^ sh
        in (if roundsUp n then q + 1 else q) * 2 ^ sh)"

text \<open>
  The Number value for a mathematical integer: rounded, and infinite once the rounded
  magnitude needs more than 1024 binary digits (it then exceeds the largest double).
  \<open>isNumber z\<close> says that the integer \<open>z\<close> is the value of a double.
\<close>

definition roundToDouble :: "nat \<Rightarrow> number" where
  "roundToDouble n =
     (if 1024 < bitLength (round53 n) then Infinity else Num (int (round53 n)))"

definition toNumber :: "int \<Rightarrow> number" where
  "toNumber z =
     (if 0 \<le> z then roundToDouble (nat z) else negate (roundToDouble (nat (- z))))"

definition isNumber :: "int \<Rightarrow> bool" where
  "isNumber z \<longleftrightarrow> toNumber z = Num z"

text \<open>
  Addition and subtraction of Number values: the exact sum, rounded; the infinities and
  \<^verbatim>\<open>NaN\<close> as IEEE has them.
\<close>

fun num_add :: "number \<Rightarrow> number \<Rightarrow> number" where
  "num_add NaN _ = NaN"
| "num_add _ NaN = NaN"
| "num_add Infinity NegInfinity = NaN"
| "num_add NegInfinity Infinity = NaN"
| "num_add Infinity _ = Infinity"
| "num_add _ Infinity = Infinity"
| "num_add NegInfinity _ = NegInfinity"
| "num_add _ NegInfinity = NegInfinity"
| "num_add (Num a) (Num b) = toNumber (a + b)"

definition num_sub :: "number \<Rightarrow> number \<Rightarrow> number" where
  "num_sub a b = num_add a (negate b)"

text \<open>
  \<^verbatim>\<open>Math.random()\<close> returns a double that is at least 0 and less than 1. Every such double
  is \<open>numerator / 2 ^ scale\<close> for a numerator below \<open>2 ^ 53\<close> and a scale of at most 1074
  (the finest step of a double is \<open>2 ^ -1074\<close>); \<open>isRandomValue\<close> says that a pair is of
  this kind.
\<close>

record fraction =
  numerator :: nat
  scale :: nat

definition isRandomValue :: "fraction \<Rightarrow> bool" where
  "isRandomValue u \<longleftrightarrow>
     numerator u < 2 ^ 53 \<and> numerator u < 2 ^ scale u \<and> scale u \<le> 1074"

text \<open>
  \<open>floor_times u r\<close> is \<^verbatim>\<open>Math.floor(u * r)\<close> for the random value \<open>u\<close>. The product of
  two doubles is their exact product rounded to 53 significant digits, here
  \<open>round53 (numerator u * n) / 2 ^ scale u\<close>: the magnitude stays below that of \<open>n\<close>, so
  there is no overflow, and a product below the normal range is a multiple of \<open>2 ^ -1074\<close>
  with fewer than 53 digits, which both IEEE and \<open>round53\<close> leave as it is. The floor of
  the quotient is the integer division, rounded away from zero for a negative \<open>n\<close>.
\<close>

fun floor_times :: "fraction \<Rightarrow> number \<Rightarrow> number" where
  "floor_times u NaN = NaN"
| "floor_times u Infinity = (if numerator u = 0 then NaN else Infinity)"
| "floor_times u NegInfinity = (if numerator u = 0 then NaN else NegInfinity)"
| "floor_times u (Num n) =
     (if 0 \<le> n then Num (int (round53 (numerator u * nat n) div 2 ^ scale u))
      else Num (- int ((round53 (numerator u * nat (- n)) + 2 ^ scale u - 1) div 2 ^ scale u)))"

text \<open>
  \<^verbatim>\<open>function getRandomNumber(min, max) { return Math.floor(Math.random() * (max - min + 1)) + min; }\<close>
  The first argument of the model is the value drawn by \<^verbatim>\<open>Math.random()\<close>.
\<close>

definition getRandomNumber :: "fraction \<Rightarrow> number \<Rightarrow> number \<Rightarrow> number" where
  "getRandomNumber u min' max' =
     num_add (floor_times u (num_add (num_sub max' min') (Num 1))) min'"

subsection \<open>Hexadecimal text\<close>

text \<open>
  Strings are lists of 8-bit characters. \<open>parseInt_16 s\<close> is \<^verbatim>\<open>parseInt(s, 16)\<close>: leading
  white space is skipped, then an optional sign, then an optional \<^verbatim>\<open>0x\<close> or \<^verbatim>\<open>0X\<close>; the
  longest run of hexadecimal digits that follows (either case) is the numeral. No digit
  gives \<^verbatim>\<open>NaN\<close>; otherwise the result is the Number value for the numeral's value.
\<close>

definition isWhiteSpace :: "char \<Rightarrow> bool" where
  "isWhiteSpace c \<longleftrightarrow> of_char c \<in> {9, 10, 11, 12, 13, 32, 160 :: nat}"

definition digitValue :: "char \<Rightarrow> nat option" where
  "digitValue c =
     (let k = (of_char c :: nat) in
      if 48 \<le> k \<and> k \<le> 57 then Some (k - 48)
      else if 97 \<le> k \<and> k \<le> 102 then Some (k - 87)
      else if 65 \<le> k \<and> k \<le> 70 then Some (k - 55)
      else None)"

definition isHexDigit :: "char \<Rightarrow> bool" where
  "isHexDigit c \<longleftrightarrow> digitValue c \<noteq> None"

definition digitOf :: "char \<Rightarrow> nat" where
  "digitOf c = (case digitValue c of None \<Rightarrow> 0 | Some d \<Rightarrow> d)"

definition mathInt :: "string \<Rightarrow> nat" where
  "mathInt Z = foldl (\<lambda>acc c. acc * 16 + digitOf c) 0 Z"

definition parseInt_16 :: "string \<Rightarrow> number" where
  "parseInt_16 string =
     (let S = dropWhile isWhiteSpace string;
          negative = (S \<noteq> [] \<and> hd S = CHR ''-'');
          S = (if S \<noteq> [] \<and> (hd S = CHR ''+'' \<or> hd S = CHR ''-'') then tl S else S);
          S = (if take 2 S = ''0x'' \<or> take 2 S = ''0X'' then drop 2 S else S);
          Z = takeWhile isHexDigit S
      in if Z = [] then NaN
         else if negative then negate (roundToDouble (mathInt Z))
         else roundToDouble (mathInt Z))"

text \<open>\<^verbatim>\<open>function hexToDecimal(hex) { return parseInt(hex, 16); }\<close>\<close>

definition hexToDecimal :: "string \<Rightarrow> number" where
  "hexToDecimal hex = parseInt_16 hex"

text \<open>
  \<open>toString_16 x\<close> is \<^verbatim>\<open>x.toString(16)\<close>: lowercase digits, most significant first, a
  minus sign for a negative value, and the names of the values that are not finite. Above
  \<open>2 ^ 53\<close> the language leaves the digits to the implementation; the model prints the
  exact value there.
\<close>

definition hexDigit :: "nat \<Rightarrow> char" where
  "hexDigit d = ''0123456789abcdef'' ! d"

function toHexDigits :: "nat \<Rightarrow> string" where
  "toHexDigits n =
     (if n < 16 then [hexDigit n] else toHexDigits (n div 16) @ [hexDigit (n mod 16)])"
  by pat_completeness auto
termination
  by (relation "measure id") auto

declare toHexDigits.simps [simp del]

fun toString_16 :: "number \<Rightarrow> string" where
  "toString_16 NaN = ''NaN''"
| "toString_16 Infinity = ''Infinity''"
| "toString_16 NegInfinity = ''-Infinity''"
| "toString_16 (Num n) =
     (if n < 0 then CHR ''-'' # toHexDigits (nat (- n)) else toHexDigits (nat n))"

text \<open>\<^verbatim>\<open>s.padStart(targetLength, padString)\<close>\<close>

definition padStart :: "string \<Rightarrow> nat \<Rightarrow> string \<Rightarrow> string" where
  "padStart s targetLength padString =
     (if targetLength \<le> length s \<or> padString = [] then s
      else take (targetLength - length s)
             (concat (replicate (targetLength - length s) padString)) @ s)"

text \<open>\<^verbatim>\<open>function decimalToHex(decimal) { return decimal.toString(16).padStart(1, '0'); }\<close>\<close>

definition decimalToHex :: "number \<Rightarrow> string" where
  "decimalToHex decimal = padStart (toString_16 decimal) 1 ''0''"

text \<open>
  The canonical form of an identifier: at least one digit, digits \<^verbatim>\<open>0-9a-f\<close> only, and
  no leading zero unless the string is a single digit.
\<close>

definition isLowerHexDigit :: "char \<Rightarrow> bool" where
  "isLowerHexDigit c \<longleftrightarrow> c \<in> set ''0123456789abcdef''"

definition canonicalHex :: "string \<Rightarrow> bool" where
  "canonicalHex s \<longleftrightarrow>
     s \<noteq> [] \<and> list_all isLowerHexDigit s \<and> (length s = 1 \<or> hd s \<noteq> CHR ''0'')"

subsection \<open>The environment: network and random source\<close>

text \<open>
  A value caught by \<^verbatim>\<open>catch (e)\<close> is an \<^verbatim>\<open>Error\<close> with its message, or something else.
  An awaited promise has settled: it was rejected with a thrown value or fulfilled.
\<close>

datatype thrown = Error string | NonError

datatype 'a settled = Rejected thrown | Fulfilled 'a

text \<open>
  The value that \<^verbatim>\<open>response.json()\<close> yields for a map. The script stores it in
  \<^verbatim>\<open>randomMap\<close> without a check and afterwards tests it with \<^verbatim>\<open>!randomMap\<close>, so the
  model keeps every JSON value and its truthiness; the interface \<^verbatim>\<open>MapDetails\<close> is a
  compile-time annotation only.
\<close>

datatype jsvalue =
    JNull
  | JBool bool
  | JNumber rat
  | JString string
  | JArray "jsvalue list"
  | JObject "(string \<times> jsvalue) list"

fun truthy :: "jsvalue \<Rightarrow> bool" where
  "truthy JNull = False"
| "truthy (JBool b) = b"
| "truthy (JNumber x) = (x \<noteq> 0)"
| "truthy (JString s) = (s \<noteq> [])"
| "truthy (JArray _) = True"
| "truthy (JObject _) = True"

text \<open>
  A response has the flag \<^verbatim>\<open>ok\<close> and a body. \<open>json\<close> is what reading the body gives: a
  thrown value when \<^verbatim>\<open>response.json()\<close> fails, the parsed value otherwise. For the
  latest-map endpoint the body type is \<open>string\<close>: there \<open>json\<close> stands for the two lines
  \<^verbatim>\<open>const data = await response.json(); return data.docs[0].id;\<close> together, which throw
  (malformed body, no first document) or yield the id.
\<close>

record 'b response =
  ok :: bool
  json :: "thrown + 'b"

text \<open>
  The environment answers every request and every call of \<^verbatim>\<open>Math.random()\<close>. The number
  given to \<open>fetchLatest\<close> and \<open>fetchMap\<close> counts the requests made before, so the same
  address may be answered differently each time; \<open>fetchMap\<close> also gets the address.
\<close>

record env =
  fetchLatest :: "nat \<Rightarrow> string response settled"
  fetchMap :: "nat \<Rightarrow> string \<Rightarrow> jsvalue response settled"
  mathRandom :: "nat \<Rightarrow> fraction"

subsection \<open>The component state\<close>

text \<open>
  \<^verbatim>\<open>randomMap\<close>, \<^verbatim>\<open>isLoading\<close> and \<^verbatim>\<open>error\<close> are the script's variables (\<open>JNull\<close> and
  \<open>None\<close> are \<^verbatim>\<open>null\<close>). \<open>calls\<close> and \<open>draws\<close> are bookkeeping added by the model: the
  requests made so far, in order, each with the place in the script that made it and what
  came back, and the number of random draws so far.
\<close>

datatype call =
    LatestCall
  | ProbeCall string bool
  | DetailCall string "jsvalue response settled"

record state =
  randomMap :: jsvalue
  isLoading :: bool
  error :: "string option"
  calls :: "call list"
  draws :: nat

subsection \<open>The functions of the script\<close>

definition fetchLatestMapId :: "env \<Rightarrow> state \<Rightarrow> (thrown + string) \<times> state" where
  "fetchLatestMapId env s =
     (let s' = s\<lparr>calls := calls s @ [LatestCall]\<rparr> in
      case fetchLatest env (length (calls s)) of
        Rejected e \<Rightarrow> (Inl e, s')
      | Fulfilled response \<Rightarrow>
          if \<not> ok response then (Inl (Error ''Failed to fetch latest map''), s')
          else (json response, s'))"

definition mapUrl :: "string \<Rightarrow> string" where
  "mapUrl mapId = ''https://api.beatsaver.com/maps/id/'' @ mapId"

text \<open>
  \<open>tried\<close> is the \<^verbatim>\<open>try\<close> block of \<^verbatim>\<open>checkMapExists\<close>, \<open>result\<close> what the function
  returns after its \<^verbatim>\<open>catch\<close>.
\<close>

definition checkMapExists :: "env \<Rightarrow> string \<Rightarrow> state \<Rightarrow> (thrown + bool) \<times> state" where
  "checkMapExists env mapId s =
     (let tried = (case fetchMap env (length (calls s)) (mapUrl mapId) of
                     Rejected e \<Rightarrow> Inl e
                   | Fulfilled response \<Rightarrow> Inr (ok response));
          result = (case tried of Inl e \<Rightarrow> False | Inr b \<Rightarrow> b)
      in (Inr result, s\<lparr>calls := calls s @ [ProbeCall mapId result]\<rparr>))"

definition maxAttempts :: nat where
  "maxAttempts = 10"

text \<open>The \<^verbatim>\<open>while (attempts < maxAttempts)\<close> loop of \<^verbatim>\<open>findRandomMap\<close>.\<close>

function probeLoop :: "env \<Rightarrow> number \<Rightarrow> nat \<Rightarrow> state \<Rightarrow> (thrown + unit) \<times> state" where
  "probeLoop env maxDecimal attempts s =
     (if attempts < maxAttempts then
        (let randomDecimal = getRandomNumber (mathRandom env (draws s)) (Num 1) maxDecimal;
             s1 = s\<lparr>draws := Suc (draws s)\<rparr>;
             randomHex = decimalToHex randomDecimal
         in case checkMapExists env randomHex s1 of
              (Inl e, s2) \<Rightarrow> (Inl e, s2)
            | (Inr exists, s2) \<Rightarrow>
                if exists then
                  (let outcome = fetchMap env (length (calls s2)) (mapUrl randomHex);
                       s3 = s2\<lparr>calls := calls s2 @ [DetailCall randomHex outcome]\<rparr>
                   in case outcome of
                        Rejected e \<Rightarrow> (Inl e, s3)
                      | Fulfilled response \<Rightarrow>
                          (case json response of
                             Inl e \<Rightarrow> (Inl e, s3)
                           | Inr v \<Rightarrow> (Inr (), s3\<lparr>randomMap := v\<rparr>)))
                else probeLoop env maxDecimal (attempts + 1) s2)
      else (Inr (), s))"
  by pat_completeness auto
termination
  by (relation "measure (\<lambda>(env, maxDecimal, attempts, s). maxAttempts - attempts)") auto

declare probeLoop.simps [simp del]

text \<open>The body of the \<^verbatim>\<open>try\<close> block of \<^verbatim>\<open>findRandomMap\<close>.\<close>

definition tryBlock :: "env \<Rightarrow> state \<Rightarrow> (thrown + unit) \<times> state" where
  "tryBlock env s =
     (case fetchLatestMapId env s of
        (Inl e, s1) \<Rightarrow> (Inl e, s1)
      | (Inr latestMapId, s1) \<Rightarrow>
          (let maxDecimal = hexToDecimal latestMapId in
           case probeLoop env maxDecimal 0 s1 of
             (Inl e, s2) \<Rightarrow> (Inl e, s2)
           | (Inr u, s2) \<Rightarrow>
               if \<not> truthy (randomMap s2)
               then (Inl (Error ''Could not find a valid map after multiple attempts''), s2)
               else (Inr (), s2)))"

text \<open>\<^verbatim>\<open>e instanceof Error ? e.message : 'An unexpected error occurred'\<close>\<close>

definition catchMessage :: "thrown \<Rightarrow> string" where
  "catchMessage e =
     (case e of Error message \<Rightarrow> message | NonError \<Rightarrow> ''An unexpected error occurred'')"

text \<open>One run of \<^verbatim>\<open>findRandomMap\<close>, from the click to the end of its \<^verbatim>\<open>finally\<close>.\<close>

definition findRandomMap :: "env \<Rightarrow> state \<Rightarrow> state" where
  "findRandomMap env s =
     (let s0 = s\<lparr>isLoading := True, error := None, randomMap := JNull\<rparr> in
      case tryBlock env s0 of
        (Inl e, s1) \<Rightarrow> s1\<lparr>error := Some (catchMessage e), isLoading := False\<rparr>
      | (Inr u, s1) \<Rightarrow> s1\<lparr>isLoading := False\<rparr>)"

subsection \<open>Vocabulary of the properties\<close>

text \<open>
  The requests that one search adds to the log, and the kinds of entries: an existence
  probe, a probe that reported "does not exist", a probe that reported "exists".
\<close>

definition newCalls :: "env \<Rightarrow> state \<Rightarrow> call list" where
  "newCalls env s = drop (length (calls s)) (calls (findRandomMap env s))"

definition isProbeCall :: "call \<Rightarrow> bool" where
  "isProbeCall c = (case c of ProbeCall mapId b \<Rightarrow> True | _ \<Rightarrow> False)"

definition isNegProbe :: "call \<Rightarrow> bool" where
  "isNegProbe c = (case c of ProbeCall mapId b \<Rightarrow> \<not> b | _ \<Rightarrow> False)"

definition reportsExistence :: "call \<Rightarrow> bool" where
  "reportsExistence c = (case c of ProbeCall mapId b \<Rightarrow> b | _ \<Rightarrow> False)"

text \<open>
  What the environment answers to a probe of \<open>mapId\<close> made as request number \<open>i\<close>, and
  what the detail request after a successful probe gives: a thrown value (the request was
  rejected, or the body could not be read) or the parsed body.
\<close>

definition existsAt :: "env \<Rightarrow> nat \<Rightarrow> string \<Rightarrow> bool" where
  "existsAt env i mapId =
     (case fetchMap env i (mapUrl mapId) of
        Rejected e \<Rightarrow> False
      | Fulfilled response \<Rightarrow> ok response)"

definition detailResult :: "jsvalue response settled \<Rightarrow> thrown + jsvalue" where
  "detailResult outcome =
     (case outcome of Rejected e \<Rightarrow> Inl e | Fulfilled response \<Rightarrow> json response)"

definition notFoundMessage :: string where
  "notFoundMessage = ''Could not find a valid map after multiple attempts''"

text \<open>The identifier that the next iteration of the loop probes (\<^verbatim>\<open>randomHex\<close>).\<close>

definition candidate :: "env \<Rightarrow> number \<Rightarrow> state \<Rightarrow> string" where
  "candidate env maxDecimal s =
     decimalToHex (getRandomNumber (mathRandom env (draws s)) (Num 1) maxDecimal)"

text \<open>
  The two ways the loop ends, seen from the state \<open>s\<close> it started in with \<open>a\<close> attempts
  used: all remaining attempts probed in vain, or some probe hit and the details were
  requested.
\<close>

definition loopExhausted ::
  "nat \<Rightarrow> state \<Rightarrow> (thrown + unit) \<times> state \<Rightarrow> call list \<Rightarrow> bool" where
  "loopExhausted a s res negs \<longleftrightarrow>
     list_all isNegProbe negs \<and> length negs = maxAttempts - a \<and> fst res = Inr () \<and>
     calls (snd res) = calls s @ negs \<and> randomMap (snd res) = randomMap s \<and>
     isLoading (snd res) = isLoading s \<and> error (snd res) = error s"

definition loopFound ::
  "env \<Rightarrow> nat \<Rightarrow> state \<Rightarrow> (thrown + unit) \<times> state \<Rightarrow> call list \<Rightarrow> string \<Rightarrow> bool" where
  "loopFound env a s res negs h \<longleftrightarrow>
     (let outcome = fetchMap env (length (calls s) + length negs + 1) (mapUrl h) in
      list_all isNegProbe negs \<and> length negs < maxAttempts - a \<and>
      existsAt env (length (calls s) + length negs) h \<and>
      calls (snd res) = calls s @ negs @ [ProbeCall h True, DetailCall h outcome] \<and>
      fst res = (case detailResult outcome of Inl e \<Rightarrow> Inl e | Inr v \<Rightarrow> Inr ()) \<and>
      randomMap (snd res) = (case detailResult outcome of Inl e \<Rightarrow> randomMap s | Inr v \<Rightarrow> v) \<and>
      isLoading (snd res) = isLoading s \<and> error (snd res) = error s)"

subsection \<open>Concrete runs\<close>

text \<open>
  The state of a freshly loaded page, two response bodies, and seven environments. In all
  of them the latest id, when it arrives, is \<^verbatim>\<open>"10"\<close>, so sixteen is the upper bound,
  and outside \<open>envThird\<close> every draw is 1/2.
  \<^item> \<open>envThird\<close>: the first two probes answer 404, everything from the third on succeeds;
    the draws 1/4, 1/2 and 9/16 lead to the ids 5, 9 and a.
  \<^item> \<open>envOffline\<close>: every request is rejected, as a browser without network does.
  \<^item> \<open>envLatest500\<close>: the latest-map request is answered with a status that is not ok.
  \<^item> \<open>envNone\<close>: every map request answers 404.
  \<^item> \<open>envProbesDown\<close>: the latest-map request succeeds, every map request is rejected.
  \<^item> \<open>envDetail404\<close>: the first probe succeeds, the detail request after it answers 404
    with the catalogue's error body.
  \<^item> \<open>envDetailFalse\<close>: every map request succeeds with the body \<^verbatim>\<open>false\<close>.
\<close>

definition initial :: state where
  "initial = \<lparr>randomMap = JNull, isLoading = False, error = None, calls = [], draws = 0\<rparr>"

definition notFoundBody :: jsvalue where
  "notFoundBody = JObject [(''error'', JString ''Not Found'')]"

definition mapBody :: jsvalue where
  "mapBody = JObject [(''id'', JString ''a''), (''name'', JString ''Example'')]"

definition envThird :: env where
  "envThird =
     \<lparr>fetchLatest = (\<lambda>i. Fulfilled \<lparr>ok = True, json = Inr ''10''\<rparr>),
      fetchMap = (\<lambda>i url. if 3 \<le> i then Fulfilled \<lparr>ok = True, json = Inr mapBody\<rparr>
                  else Fulfilled \<lparr>ok = False, json = Inr notFoundBody\<rparr>),
      mathRandom = (\<lambda>i. [\<lparr>numerator = 1, scale = 2\<rparr>, \<lparr>numerator = 1, scale = 1\<rparr>,
                         \<lparr>numerator = 9, scale = 4\<rparr>] ! (i mod 3))\<rparr>"

definition envOffline :: env where
  "envOffline =
     \<lparr>fetchLatest = (\<lambda>i. Rejected (Error ''Failed to fetch'')),
      fetchMap = (\<lambda>i url. Rejected (Error ''Failed to fetch'')),
      mathRandom = (\<lambda>i. \<lparr>numerator = 1, scale = 1\<rparr>)\<rparr>"

definition envLatest500 :: env where
  "envLatest500 =
     \<lparr>fetchLatest = (\<lambda>i. Fulfilled \<lparr>ok = False, json = Inl (Error ''Unexpected token'')\<rparr>),
      fetchMap = (\<lambda>i url. Fulfilled \<lparr>ok = True, json = Inr mapBody\<rparr>),
      mathRandom = (\<lambda>i. \<lparr>numerator = 1, scale = 1\<rparr>)\<rparr>"

definition envNone :: env where
  "envNone =
     \<lparr>fetchLatest = (\<lambda>i. Fulfilled \<lparr>ok = True, json = Inr ''10''\<rparr>),
      fetchMap = (\<lambda>i url. Fulfilled \<lparr>ok = False, json = Inr notFoundBody\<rparr>),
      mathRandom = (\<lambda>i. \<lparr>numerator = 1, scale = 1\<rparr>)\<rparr>"

definition envProbesDown :: env where
  "envProbesDown =
     \<lparr>fetchLatest = (\<lambda>i. Fulfilled \<lparr>ok = True, json = Inr ''10''\<rparr>),
      fetchMap = (\<lambda>i url. Rejected (Error ''Failed to fetch'')),
      mathRandom = (\<lambda>i. \<lparr>numerator = 1, scale = 1\<rparr>)\<rparr>"

definition envDetail404 :: env where
  "envDetail404 =
     \<lparr>fetchLatest = (\<lambda>i. Fulfilled \<lparr>ok = True, json = Inr ''10''\<rparr>),
      fetchMap = (\<lambda>i url. if i = 1 then Fulfilled \<lparr>ok = True, json = Inr mapBody\<rparr>
                  else Fulfilled \<lparr>ok = False, json = Inr notFoundBody\<rparr>),
      mathRandom = (\<lambda>i. \<lparr>numerator = 1, scale = 1\<rparr>)\<rparr>"

definition envDetailFalse :: env where
  "envDetailFalse =
     \<lparr>fetchLatest = (\<lambda>i. Fulfilled \<lparr>ok = True, json = Inr ''10''\<rparr>),
      fetchMap = (\<lambda>i url. Fulfilled \<lparr>ok = True, json = Inr (JBool False)\<rparr>),
      mathRandom = (\<lambda>i. \<lparr>numerator = 1, scale = 1\<rparr>)\<rparr>"

section \<open>Properties\<close>

subsection \<open>Rounding\<close>

text \<open>Binary digits and rounding to 53 of them.\<close>

lemma bitLength_le: "bitLength n \<le> k \<longleftrightarrow> n < 2 ^ k"
proof (induction n arbitrary: k rule: bitLength.induct)
  case (1 n)
  show ?case
  proof (cases "n = 0")
    case True
    then show ?thesis by (simp add: bitLength.simps)
  next
    case False
    show ?thesis
    proof (cases k)
      case 0
      with False show ?thesis by (simp add: bitLength.simps)
    next
      case (Suc j)
      have "bitLength (n div 2) \<le> j \<longleftrightarrow> n div 2 < 2 ^ j"
        using "1.IH" [OF False] .
      moreover have "n div 2 < 2 ^ j \<longleftrightarrow> n < 2 ^ Suc j"
        by (simp add: less_mult_imp_div_less div_less_iff_less_mult mult.commute)
      ultimately show ?thesis
        using False Suc by (simp add: bitLength.simps [of n])
    qed
  qed
qed

lemma bitLength_upper: "n < 2 ^ bitLength n"
  using bitLength_le [of n "bitLength n"] by simp

lemma bitLength_lower: "0 < n \<Longrightarrow> 2 ^ (bitLength n - 1) \<le> n"
proof -
  assume "0 < n"
  then have "bitLength n \<noteq> 0" by (subst bitLength.simps) simp
  then have "\<not> bitLength n \<le> bitLength n - 1" by simp
  then show ?thesis by (simp add: bitLength_le)
qed

lemma bitLength_mono: "a \<le> b \<Longrightarrow> bitLength a \<le> bitLength b"
  using bitLength_le [of a "bitLength b"] bitLength_upper [of b] by simp

lemma bitLength_eqI: "2 ^ k \<le> n \<Longrightarrow> n < 2 ^ Suc k \<Longrightarrow> bitLength n = Suc k"
  using bitLength_le [of n "Suc k"] bitLength_le [of n k] by simp

lemma pow_split: "k \<le> b \<Longrightarrow> (2::nat) ^ k * 2 ^ (b - k) = 2 ^ b"
  by (simp only: power_add [symmetric] le_add_diff_inverse)

text \<open>The parts of a number with more than 53 binary digits.\<close>

lemma parts:
  assumes "53 < bitLength n"
  defines "sh \<equiv> bitLength n - 53"
  shows "0 < sh" and "2 ^ 52 \<le> n div 2 ^ sh" and "n div 2 ^ sh < 2 ^ 53"
    and "n mod 2 ^ sh < 2 ^ sh" and "n = n div 2 ^ sh * 2 ^ sh + n mod 2 ^ sh"
    and "2 * 2 ^ (sh - 1) = (2::nat) ^ sh"
proof -
  show sh: "0 < sh" using assms by simp
  have b: "bitLength n = sh + 53" using assms by simp
  have "n < 2 ^ (sh + 53)" using bitLength_upper [of n] b by simp
  then have "n < 2 ^ 53 * 2 ^ sh" by (simp add: power_add mult.commute)
  then show "n div 2 ^ sh < 2 ^ 53"
    by (simp add: less_mult_imp_div_less)
  have "0 < n" using assms(1) by (cases "n = 0") (simp_all add: bitLength.simps)
  from bitLength_lower [OF this] have "2 ^ (sh + 52) \<le> n" using b by (simp add: add.commute)
  then have "2 ^ 52 * 2 ^ sh \<le> n" by (simp add: power_add mult.commute)
  then show "2 ^ 52 \<le> n div 2 ^ sh"
    by (simp add: less_eq_div_iff_mult_less_eq)
  show "n mod 2 ^ sh < 2 ^ sh" by simp
  show "n = n div 2 ^ sh * 2 ^ sh + n mod 2 ^ sh"
    by (rule div_mult_mod_eq [symmetric])
  from sh show "2 * 2 ^ (sh - 1) = (2::nat) ^ sh"
    by (cases sh) simp_all
qed


lemma round53_small: "bitLength n \<le> 53 \<Longrightarrow> round53 n = n"
  by (simp add: round53_def)

lemma round53_big:
  "53 < bitLength n \<Longrightarrow>
     round53 n =
       (if roundsUp n then n div 2 ^ (bitLength n - 53) + 1 else n div 2 ^ (bitLength n - 53))
         * 2 ^ (bitLength n - 53)"
  by (simp add: round53_def Let_def)

lemma round53_between:
  assumes "53 < bitLength n"
  shows "n div 2 ^ (bitLength n - 53) * 2 ^ (bitLength n - 53) \<le> round53 n"
    and "round53 n \<le> (n div 2 ^ (bitLength n - 53) + 1) * 2 ^ (bitLength n - 53)"
  using assms by (simp_all add: round53_big)

lemma round53_upper: "round53 n \<le> 2 ^ bitLength n"
proof (cases "bitLength n \<le> 53")
  case True
  then show ?thesis
    using bitLength_upper [of n] by (simp add: round53_small)
next
  case False
  then have big: "53 < bitLength n" by simp
  define sh where "sh = bitLength n - 53"
  have "n div 2 ^ sh + 1 \<le> 2 ^ 53"
    using parts(3) [OF big] by (simp add: sh_def)
  then have "(n div 2 ^ sh + 1) * 2 ^ sh \<le> 2 ^ 53 * 2 ^ sh"
    by (rule mult_le_mono1)
  also have "(2::nat) ^ 53 * 2 ^ sh = 2 ^ bitLength n"
    unfolding sh_def using big by (intro pow_split) simp
  finally show ?thesis
    using round53_between(2) [OF big] unfolding sh_def by (rule order_trans [rotated])
qed

lemma round53_lower: "0 < n \<Longrightarrow> 2 ^ (bitLength n - 1) \<le> round53 n"
proof (cases "bitLength n \<le> 53")
  case True
  assume "0 < n"
  then show ?thesis
    using bitLength_lower [of n] True by (simp add: round53_small)
next
  case False
  then have big: "53 < bitLength n" by simp
  define sh where "sh = bitLength n - 53"
  have "52 \<le> bitLength n - 1" and "bitLength n - 1 - 52 = sh"
    using big by (simp_all add: sh_def)
  with pow_split [of 52 "bitLength n - 1"]
  have "(2::nat) ^ (bitLength n - 1) = 2 ^ 52 * 2 ^ sh"
    by simp
  also have "\<dots> \<le> n div 2 ^ sh * 2 ^ sh"
    using parts(2) [OF big] unfolding sh_def by (rule mult_le_mono1)
  also have "\<dots> \<le> round53 n"
    using round53_between(1) [OF big] by (simp add: sh_def)
  finally show ?thesis .
qed

lemma round53_mono:
  assumes "a \<le> b"
  shows "round53 a \<le> round53 b"
proof (cases "bitLength a = bitLength b")
  case False
  with bitLength_mono [OF assms] have lt: "bitLength a < bitLength b" by simp
  then have "0 < b" by (cases "b = 0") (simp_all add: bitLength.simps)
  have "round53 a \<le> 2 ^ bitLength a" by (rule round53_upper)
  also have "\<dots> \<le> 2 ^ (bitLength b - 1)"
    using lt by (intro power_increasing) simp_all
  also have "\<dots> \<le> round53 b"
    using \<open>0 < b\<close> by (rule round53_lower)
  finally show ?thesis .
next
  case True
  show ?thesis
  proof (cases "bitLength b \<le> 53")
    case small: True
    with True assms show ?thesis by (simp add: round53_small)
  next
    case False
    then have bigb: "53 < bitLength b" and biga: "53 < bitLength a" using True by simp_all
    define sh where "sh = bitLength b - 53"
    have sha: "bitLength a - 53 = sh" using True by (simp add: sh_def)
    define qa ra qb rb where "qa = a div 2 ^ sh" and "ra = a mod 2 ^ sh"
      and "qb = b div 2 ^ sh" and "rb = b mod 2 ^ sh"
    have qab: "qa \<le> qb" unfolding qa_def qb_def using assms by (rule div_le_mono)
    have ra: "round53 a = (if roundsUp a then qa + 1 else qa) * 2 ^ sh"
      using biga by (simp add: round53_big sha qa_def)
    have rb: "round53 b = (if roundsUp b then qb + 1 else qb) * 2 ^ sh"
      using bigb by (simp add: round53_big sh_def [symmetric] qb_def)
    show ?thesis
    proof (cases "qa = qb")
      case False
      with qab have "qa + 1 \<le> qb" by simp
      then show ?thesis by (simp add: ra rb)
    next
      case q: True
      have "a = qa * 2 ^ sh + ra" "b = qb * 2 ^ sh + rb"
        unfolding qa_def ra_def qb_def rb_def by (rule div_mult_mod_eq [symmetric])+
      with assms q have "ra \<le> rb" by simp
      then have "roundsUp a \<Longrightarrow> roundsUp b"
        using q unfolding roundsUp_def Let_def sha sh_def [symmetric]
          qa_def [symmetric] qb_def [symmetric] ra_def [symmetric] rb_def [symmetric]
        by auto
      then show ?thesis by (auto simp add: ra rb q)
    qed
  qed
qed

text \<open>Numbers that rounding leaves alone are the values a double can hold.\<close>

lemma round53_multiple:
  assumes "53 < bitLength n" and "n mod 2 ^ (bitLength n - 53) = 0"
  shows "round53 n = n"
proof -
  define sh where "sh = bitLength n - 53"
  have "0 < sh" using assms(1) by (simp add: sh_def)
  then have "\<not> roundsUp n"
    using assms(2) by (simp add: roundsUp_def Let_def sh_def [symmetric])
  moreover have "n div 2 ^ sh * 2 ^ sh = n"
    using assms(2) div_mult_mod_eq [of n "2 ^ sh"] by (simp add: sh_def)
  ultimately show ?thesis
    using assms(1) by (simp add: round53_big sh_def)
qed

lemma round53_fixed_multiple:
  assumes "round53 n = n" and "53 < bitLength n"
  shows "n mod 2 ^ (bitLength n - 53) = 0"
proof -
  from assms have "n = (if roundsUp n then n div 2 ^ (bitLength n - 53) + 1
      else n div 2 ^ (bitLength n - 53)) * 2 ^ (bitLength n - 53)"
    by (simp add: round53_big)
  then have "2 ^ (bitLength n - 53) dvd n"
    by (metis dvd_triv_right)
  then show ?thesis by (simp add: mod_eq_0_iff_dvd)
qed

lemma round53_idem: "round53 (round53 n) = round53 n"
proof (cases "bitLength n \<le> 53")
  case True
  then show ?thesis by (simp add: round53_small)
next
  case False
  then have big: "53 < bitLength n" by simp
  define sh where "sh = bitLength n - 53"
  define q' where "q' = (if roundsUp n then n div 2 ^ sh + 1 else n div 2 ^ sh)"
  have r: "round53 n = q' * 2 ^ sh"
    using big by (simp add: round53_big q'_def sh_def)
  have q'lo: "2 ^ 52 \<le> q'" and q'hi: "q' \<le> 2 ^ 53"
    using parts(2,3) [OF big] by (auto simp: q'_def sh_def)
  show ?thesis
  proof (cases "q' = 2 ^ 53")
    case True
    then have "round53 n = 2 ^ (53 + sh)" by (simp add: r power_add)
    moreover have "bitLength ((2::nat) ^ (53 + sh)) = Suc (53 + sh)"
      by (rule bitLength_eqI) simp_all
    moreover have "(2::nat) ^ Suc sh dvd 2 ^ (53 + sh)"
      by (intro le_imp_power_dvd) simp
    then have "(2::nat) ^ (53 + sh) mod 2 ^ Suc sh = 0"
      by (simp only: mod_eq_0_iff_dvd)
    ultimately show ?thesis
      by (simp add: round53_multiple)
  next
    case False
    with q'hi have "q' < 2 ^ 53" by simp
    then have "q' * 2 ^ sh < 2 ^ 53 * 2 ^ sh" by simp
    then have "q' * 2 ^ sh < 2 ^ Suc (52 + sh)" by (simp add: power_add)
    moreover have "(2::nat) ^ 52 * 2 ^ sh \<le> q' * 2 ^ sh"
      using q'lo by (intro mult_le_mono1)
    then have "2 ^ (52 + sh) \<le> q' * 2 ^ sh" by (simp add: power_add)
    ultimately have bl: "bitLength (q' * 2 ^ sh) = Suc (52 + sh)"
      by (intro bitLength_eqI)
    then have "bitLength (q' * 2 ^ sh) - 53 = sh" and "53 < bitLength (q' * 2 ^ sh)"
      using parts(1) [OF big] by (simp_all add: sh_def)
    moreover have "q' * 2 ^ sh mod 2 ^ sh = 0"
      by simp
    ultimately have "round53 (q' * 2 ^ sh) = q' * 2 ^ sh"
      by (intro round53_multiple) simp_all
    then show ?thesis
      by (simp add: r)
  qed
qed


lemma round53_down:
  assumes "53 < bitLength n" and "n mod 2 ^ (bitLength n - 53) < 2 ^ (bitLength n - 53 - 1)"
  shows "round53 n = n div 2 ^ (bitLength n - 53) * 2 ^ (bitLength n - 53)"
proof -
  from assms(2) have "\<not> roundsUp n"
    by (simp add: roundsUp_def Let_def)
  with assms(1) show ?thesis by (simp add: round53_big)
qed

lemma stays_below_half:
  fixes N M q r X H :: nat
  assumes "N = q * X + r" and "X = 2 * H" and "M = (q + 1) * X" and "2 ^ 52 \<le> q"
    and "N * 2 ^ 53 \<le> M * (2 ^ 53 - 1)" and "0 < H"
  shows "r < H"
proof -
  define A where "A = q * X"
  have "2 ^ 52 * X \<le> q * X"
    using assms(4) by (rule mult_le_mono1)
  then have 1: "4503599627370496 * X \<le> A" by (simp add: A_def)
  have "M = A + X" using assms(3) by (simp add: A_def)
  with assms(1,5) have "(A + r) * 9007199254740992 \<le> (A + X) * 9007199254740991"
    by (simp add: A_def)
  then have "A * 9007199254740992 + r * 9007199254740992
      \<le> A * 9007199254740991 + X * 9007199254740991"
    by (simp only: distrib_right)
  with 1 assms(2,6) show ?thesis by linarith
qed

lemma round53_below:
  assumes M: "round53 M = M" and N: "N * 2 ^ 53 \<le> M * (2 ^ 53 - 1)" and "0 < M"
  shows "round53 N < M"
proof -
  have NM: "N < M"
  proof (rule ccontr)
    assume "\<not> N < M"
    then have "M * 2 ^ 53 \<le> N * 2 ^ 53" by simp
    from this N have "M * 2 ^ 53 \<le> M * (2 ^ 53 - 1)" by (rule order_trans)
    with \<open>0 < M\<close> show False by simp
  qed
  show ?thesis
  proof (cases "bitLength N \<le> 53")
    case True
    with NM show ?thesis by (simp add: round53_small)
  next
    case False
    then have big: "53 < bitLength N" by simp
    define sh where "sh = bitLength N - 53"
    define X :: nat where "X = 2 ^ sh"
    define q r where "q = N div X" and "r = N mod X"
    have Nqr: "N = q * X + r" unfolding q_def r_def by (rule div_mult_mod_eq [symmetric])
    have q: "2 ^ 52 \<le> q" and sh: "0 < sh" and X2: "X = 2 * 2 ^ (sh - 1)"
      using parts(1,2,6) [OF big] by (simp_all add: q_def X_def sh_def)
    have blM: "bitLength N \<le> bitLength M"
      using NM by (intro bitLength_mono) simp
    with big have bigM: "53 < bitLength M" by simp
    have "2 ^ (bitLength M - 53) dvd M"
      using round53_fixed_multiple [OF M bigM] by (simp only: mod_eq_0_iff_dvd)
    moreover have "X dvd 2 ^ (bitLength M - 53)"
      unfolding X_def sh_def using blM by (intro le_imp_power_dvd) simp
    ultimately have "X dvd M" by (rule dvd_trans [rotated])
    then obtain k where k: "M = k * X" by (auto simp: dvd_def mult.commute)
    have qk: "q < k"
    proof (rule ccontr)
      assume "\<not> q < k"
      then have "k * X \<le> q * X" by (intro mult_le_mono1) simp
      with NM Nqr k show False by simp
    qed
    have up: "round53 N \<le> (q + 1) * X"
      using round53_between(2) [OF big] by (simp add: q_def X_def sh_def)
    show ?thesis
    proof (cases "k = q + 1")
      case True
      with k have "M = (q + 1) * X" by simp
      from stays_below_half [OF Nqr X2 this q N] have "r < 2 ^ (sh - 1)" by simp
      then have "round53 N = q * X"
        using round53_down [OF big] by (simp add: r_def q_def X_def sh_def)
      with k True show ?thesis by (simp add: X_def)
    next
      case False
      with qk have "q + 2 \<le> k" by simp
      then have "(q + 2) * X \<le> k * X" by (rule mult_le_mono1)
      moreover have "(q + 1) * X < (q + 2) * X" by (simp add: X_def)
      ultimately show ?thesis using up k by simp
    qed
  qed
qed

lemma div_mod_succ:
  fixes k X :: nat
  assumes "1 < X"
  shows "(k * X + 1) div X = k" and "(k * X + 1) mod X = 1"
proof -
  have "(k * X + 1) div X = k + 1 div X"
    using assms by (intro div_mult_self3) simp
  then show "(k * X + 1) div X = k"
    using assms by simp
  have "(k * X + 1) mod X = 1 mod X"
    by (rule mod_mult_self3)
  then show "(k * X + 1) mod X = 1"
    using assms by simp
qed

lemma round53_succ_of_rounded:
  assumes up: "round53 (n - 1) = n" and "0 < n"
  shows "round53 (n + 1) = n"
proof -
  define m where "m = n - 1"
  have n: "n = m + 1" using \<open>0 < n\<close> unfolding m_def by linarith
  have up': "round53 m = n" using up by (simp only: m_def)
  have big: "53 < bitLength m"
  proof (rule ccontr)
    assume "\<not> 53 < bitLength m"
    then have "round53 m = m" by (simp add: round53_small)
    with up' n show False by simp
  qed
  define sh where "sh = bitLength m - 53"
  define X :: nat where "X = 2 ^ sh"
  define q r where "q = m div X" and "r = m mod X"
  have mqr: "m = q * X + r" unfolding q_def r_def by (rule div_mult_mod_eq [symmetric])
  have sh: "0 < sh" and qlo: "2 ^ 52 \<le> q" and qhi: "q < 2 ^ 53" and X2: "X = 2 * 2 ^ (sh - 1)"
    using parts(1,2,3,6) [OF big] by (simp_all add: q_def X_def sh_def)
  have X1: "1 < X" unfolding X_def using sh by (intro one_less_power) simp_all
  have r: "r < X" using X1 by (simp add: r_def)
  have rm: "round53 m = (if roundsUp m then q + 1 else q) * X"
    using big by (simp add: round53_big q_def X_def sh_def)
  have isup: "roundsUp m"
  proof (rule ccontr)
    assume "\<not> roundsUp m"
    with rm have "round53 m = q * X" by simp
    with mqr have "round53 m \<le> m" by simp
    with up' n show False by simp
  qed
  with rm up' have nq: "n = (q + 1) * X" by simp
  with n mqr have r1: "r + 1 = X" by simp
  have n1: "n + 1 = (q + 1) * X + 1" using nq by simp
  have blm: "bitLength m = 53 + sh" using big by (simp add: sh_def)
  show ?thesis
  proof (cases "q + 1 = 2 ^ 53")
    case False
    with qhi have "q + 2 \<le> 2 ^ 53" by linarith
    then have "(q + 2) * X \<le> 2 ^ 53 * X" by (rule mult_le_mono1)
    moreover have "n + 1 < (q + 2) * X" using n1 X1 by simp
    ultimately have "n + 1 < 2 ^ 53 * X" by (rule less_le_trans [rotated])
    then have "n + 1 < 2 ^ Suc (52 + sh)" by (simp add: X_def power_add)
    moreover have "2 ^ (52 + sh) \<le> n + 1"
    proof -
      have "(2::nat) ^ 52 * X \<le> q * X" using qlo by (rule mult_le_mono1)
      also have "\<dots> \<le> n + 1" using n1 by simp
      finally show ?thesis by (simp add: X_def power_add)
    qed
    ultimately have bl: "bitLength (n + 1) = Suc (52 + sh)"
      by (intro bitLength_eqI)
    then have big1: "53 < bitLength (n + 1)" and sh1: "bitLength (n + 1) - 53 = sh"
      using sh by simp_all
    have dm: "(n + 1) div X = q + 1" "(n + 1) mod X = 1"
      unfolding n1 using div_mod_succ [OF X1, of "q + 1"] by simp_all
    have "\<not> roundsUp (n + 1)"
    proof
      assume "roundsUp (n + 1)"
      then have c: "2 ^ (sh - 1) < (1::nat) \<or> ((1::nat) = 2 ^ (sh - 1) \<and> odd (q + 1))"
        unfolding roundsUp_def Let_def sh1 using dm by (simp add: X_def)
      then have h: "(2::nat) ^ (sh - 1) = 1" and "odd (q + 1)" by auto
      then have "X = 2" and "even q" using X2 by simp_all
      with r1 have "r = 1" by simp
      with isup \<open>even q\<close> h show False
        unfolding roundsUp_def Let_def sh_def [symmetric] X_def [symmetric]
          q_def [symmetric] r_def [symmetric]
        by (simp add: X_def)
    qed
    then have "round53 (n + 1) = (q + 1) * X"
      using big1 dm sh1 by (simp add: round53_big X_def)
    with nq show ?thesis by simp
  next
    case True
    from nq have nX: "n = 2 ^ 53 * X" unfolding True .
    define Y :: nat where "Y = 2 ^ Suc sh"
    have Y: "Y = 2 * X" "1 < Y" using X1 by (simp_all add: Y_def X_def)
    have nY: "n + 1 = 2 ^ 52 * Y + 1" using nX Y by simp
    have "n + 1 < 2 ^ Suc (53 + sh)"
    proof -
      have "(1::nat) < 2 ^ 53 * X" using X1 by simp
      then have "n + 1 < 2 ^ 53 * X + 2 ^ 53 * X" using nX by simp
      then show ?thesis by (simp add: X_def power_add)
    qed
    moreover have "2 ^ (53 + sh) \<le> n + 1"
      using nX by (simp add: X_def power_add)
    ultimately have bl: "bitLength (n + 1) = Suc (53 + sh)"
      by (intro bitLength_eqI)
    then have big1: "53 < bitLength (n + 1)" and sh1: "bitLength (n + 1) - 53 = Suc sh"
      by simp_all
    have dm: "(n + 1) div Y = 2 ^ 52" "(n + 1) mod Y = 1"
      unfolding nY using div_mod_succ [OF Y(2), of "2 ^ 52"] by simp_all
    have "(1::nat) < 2 ^ sh" using X1 by (simp add: X_def)
    then have "\<not> roundsUp (n + 1)"
      unfolding roundsUp_def Let_def sh1 using dm by (simp add: Y_def)
    then have "round53 (n + 1) = 2 ^ 52 * Y"
      using big1 dm sh1 by (simp add: round53_big Y_def)
    with nX Y show ?thesis by simp
  qed
qed

lemma round53_range:
  assumes n: "round53 n = n" and "0 < n"
  shows "round53 (round53 (n - 1) + 1) \<le> n"
proof -
  have "round53 (n - 1) \<le> round53 n"
    by (intro round53_mono) simp
  with n have le: "round53 (n - 1) \<le> n" by simp
  show ?thesis
  proof (cases "round53 (n - 1) = n")
    case True
    with round53_succ_of_rounded [OF True \<open>0 < n\<close>] show ?thesis by simp
  next
    case False
    with le have "round53 (n - 1) + 1 \<le> n" by simp
    then have "round53 (round53 (n - 1) + 1) \<le> round53 n"
      by (rule round53_mono)
    with n show ?thesis by simp
  qed
qed

lemma bitLength_shift: "0 < n \<Longrightarrow> bitLength (n * 2 ^ e) = bitLength n + e"
proof -
  assume pos: "0 < n"
  then have b: "bitLength n \<noteq> 0" by (subst bitLength.simps) simp
  have "2 ^ (bitLength n - 1) * 2 ^ e \<le> n * 2 ^ e"
    using bitLength_lower [OF pos] by (rule mult_le_mono1)
  then have lo: "2 ^ (bitLength n - 1 + e) \<le> n * 2 ^ e" by (simp add: power_add)
  have "n * 2 ^ e < 2 ^ bitLength n * 2 ^ e"
    using bitLength_upper [of n] by simp
  then have hi: "n * 2 ^ e < 2 ^ Suc (bitLength n - 1 + e)"
    using b by (simp add: power_add [symmetric])
  from bitLength_eqI [OF lo hi] b show ?thesis by simp
qed

lemma round53_shift:
  assumes "round53 n = n"
  shows "round53 (n * 2 ^ e) = n * 2 ^ e"
proof (cases "n = 0")
  case True
  then show ?thesis by (simp add: round53_small bitLength.simps)
next
  case False
  then have bl: "bitLength (n * 2 ^ e) = bitLength n + e"
    by (intro bitLength_shift) simp
  show ?thesis
  proof (cases "bitLength n + e \<le> 53")
    case True
    with bl show ?thesis by (simp add: round53_small)
  next
    case big: False
    have "2 ^ (bitLength n + e - 53) dvd n * 2 ^ e"
    proof (cases "bitLength n \<le> 53")
      case True
      then have "(2::nat) ^ (bitLength n + e - 53) dvd 2 ^ e"
        by (intro le_imp_power_dvd) simp
      then show ?thesis by (rule dvd_mult)
    next
      case False
      then have "53 < bitLength n" by simp
      from round53_fixed_multiple [OF assms this]
      have "2 ^ (bitLength n - 53) dvd n" by (simp only: mod_eq_0_iff_dvd)
      then have "2 ^ (bitLength n - 53) * 2 ^ e dvd n * 2 ^ e"
        by (rule mult_dvd_mono) simp
      moreover have "bitLength n - 53 + e = bitLength n + e - 53"
        using False by simp
      ultimately show ?thesis by (simp add: power_add [symmetric])
    qed
    then have "n * 2 ^ e mod 2 ^ (bitLength (n * 2 ^ e) - 53) = 0"
      by (simp only: bl mod_eq_0_iff_dvd)
    moreover have "53 < bitLength (n * 2 ^ e)" using big bl by simp
    ultimately show ?thesis by (intro round53_multiple)
  qed
qed

lemma below_one:
  fixes m e :: nat
  assumes "m < 2 ^ 53" and "m < 2 ^ e"
  shows "m * 2 ^ 53 \<le> 2 ^ e * (2 ^ 53 - 1)"
proof (cases "e \<le> 53")
  case True
  then have "(2::nat) ^ e \<le> 2 ^ 53" by (intro power_increasing) simp_all
  moreover from assms(2) have "m + 1 \<le> 2 ^ e" by simp
  then have "(m + 1) * 2 ^ 53 \<le> 2 ^ e * 2 ^ 53" by (rule mult_le_mono1)
  ultimately have "m * 9007199254740992 + 2 ^ e \<le> 2 ^ e * 9007199254740992"
    by simp
  then show ?thesis by simp
next
  case False
  then have "(2::nat) ^ 53 \<le> 2 ^ e" by (intro power_increasing) simp_all
  then have "(2 ^ 53 - 1) * (2::nat) ^ 53 \<le> (2 ^ 53 - 1) * 2 ^ e" by (rule mult_le_mono2)
  moreover from assms(1) have "m \<le> 2 ^ 53 - 1" by simp
  then have "m * 2 ^ 53 \<le> (2 ^ 53 - 1) * 2 ^ 53" by (rule mult_le_mono1)
  ultimately show ?thesis by (simp add: mult.commute)
qed

lemma product_below:
  assumes "m < 2 ^ 53" and "m < 2 ^ e" and "round53 R = R" and "0 < R"
  shows "round53 (m * R) div 2 ^ e < R"
proof -
  have "m * 2 ^ 53 * R \<le> 2 ^ e * (2 ^ 53 - 1) * R"
    using below_one [OF assms(1,2)] by (rule mult_le_mono1)
  then have "m * R * 2 ^ 53 \<le> R * 2 ^ e * (2 ^ 53 - 1)"
    by (simp only: mult_ac)
  moreover have "round53 (R * 2 ^ e) = R * 2 ^ e"
    using assms(3) by (rule round53_shift)
  moreover have "0 < R * 2 ^ e" using assms(4) by simp
  ultimately have "round53 (m * R) < R * 2 ^ e"
    by (intro round53_below)
  then show ?thesis by (simp add: less_mult_imp_div_less)
qed

lemma toNumber_finite:
  assumes "round53 x \<le> n" and "bitLength n \<le> 1024"
  shows "toNumber (int x) = Num (int (round53 x))"
proof -
  have "bitLength (round53 x) \<le> bitLength n"
    using assms(1) by (rule bitLength_mono)
  with assms(2) show ?thesis
    by (simp add: toNumber_def roundToDouble_def)
qed

lemma isNumber_nat:
  assumes "isNumber (int n)"
  shows "round53 n = n" and "bitLength n \<le> 1024"
proof -
  from assms have "roundToDouble n = Num (int n)"
    by (simp add: isNumber_def toNumber_def)
  then have "\<not> 1024 < bitLength (round53 n)" and r: "round53 n = n"
    by (simp_all add: roundToDouble_def split: if_splits)
  then show "bitLength n \<le> 1024" by simp
  from r show "round53 n = n" .
qed

lemma getRandomNumber_value:
  assumes u: "numerator u < 2 ^ 53" "numerator u < 2 ^ scale u"
    and n: "round53 n = n" "bitLength n \<le> 1024" "0 < n"
  shows "\<exists>c. getRandomNumber u (Num 1) (Num (int n)) = Num (int c) \<and> 1 \<le> c \<and> c \<le> n"
proof -
  define a where "a = round53 (n - 1)"
  define R where "R = round53 (a + 1)"
  define k where "k = round53 (numerator u * R) div 2 ^ scale u"
  define c where "c = round53 (k + 1)"
  have "round53 (n - 1) \<le> round53 n" by (intro round53_mono) simp
  then have a: "a \<le> n" by (simp add: a_def n(1))
  have R: "R \<le> n" unfolding R_def a_def using n(1,3) by (rule round53_range)
  have Rfix: "round53 R = R" unfolding R_def by (rule round53_idem)
  have "2 ^ (bitLength (a + 1) - 1) \<le> R"
    unfolding R_def by (intro round53_lower) simp
  then have Rpos: "0 < R" by (cases "R = 0") simp_all
  have k: "k < R"
    unfolding k_def using u Rfix Rpos by (rule product_below)
  then have "round53 (k + 1) \<le> round53 R" by (intro round53_mono) simp
  then have c: "c \<le> R" by (simp add: c_def Rfix)
  have "2 ^ (bitLength (k + 1) - 1) \<le> c"
    unfolding c_def by (intro round53_lower) simp
  then have cpos: "1 \<le> c" by (cases "c = 0") simp_all
  have 1: "num_sub (Num (int n)) (Num 1) = Num (int a)"
  proof -
    have e: "int n - 1 = int (n - 1)"
      using n(3) by (cases n) simp_all
    have "num_sub (Num (int n)) (Num 1) = toNumber (int n - 1)"
      by (simp add: num_sub_def)
    also have "\<dots> = toNumber (int (n - 1))"
      by (simp only: e)
    also have "\<dots> = Num (int (round53 (n - 1)))"
      using a n(2) unfolding a_def by (rule toNumber_finite)
    finally show ?thesis by (simp only: a_def)
  qed
  have 2: "num_add (Num (int a)) (Num 1) = Num (int R)"
  proof -
    have "toNumber (int (a + 1)) = Num (int (round53 (a + 1)))"
      using R n(2) unfolding R_def by (rule toNumber_finite)
    then show ?thesis by (simp add: R_def add.commute)
  qed
  have 3: "floor_times u (Num (int R)) = Num (int k)"
    by (simp add: k_def)
  have 4: "num_add (Num (int k)) (Num 1) = Num (int c)"
  proof -
    have "c \<le> n" using c R by simp
    then have "toNumber (int (k + 1)) = Num (int (round53 (k + 1)))"
      using n(2) unfolding c_def by (rule toNumber_finite)
    then show ?thesis by (simp add: c_def add.commute)
  qed
  have "getRandomNumber u (Num 1) (Num (int n)) = Num (int c)"
    by (simp only: getRandomNumber_def 1 2 3 4)
  with cpos c R show ?thesis by auto
qed

lemma roundToDouble_exact: "n < 2 ^ 53 \<Longrightarrow> roundToDouble n = Num (int n)"
proof -
  assume "n < 2 ^ 53"
  then have "bitLength n \<le> 53" by (simp add: bitLength_le)
  then show ?thesis by (simp add: roundToDouble_def round53_small)
qed

lemma roundToDouble_isNumber:
  assumes "roundToDouble m = Num z"
  shows "isNumber z" and "isNumber (- z)"
proof -
  from assms have z: "z = int (round53 m)" and bl: "\<not> 1024 < bitLength (round53 m)"
    by (simp_all add: roundToDouble_def split: if_splits)
  have r: "roundToDouble (round53 m) = Num z"
    using bl by (simp add: roundToDouble_def round53_idem z)
  then show "isNumber z"
    by (simp add: isNumber_def toNumber_def z)
  show "isNumber (- z)"
  proof (cases "z = 0")
    case True
    with \<open>isNumber z\<close> show ?thesis by simp
  next
    case False
    with z have "0 < z" by simp
    with r show ?thesis by (simp add: isNumber_def toNumber_def z)
  qed
qed

lemma hexToDecimal_isNumber: "hexToDecimal hex = Num z \<Longrightarrow> isNumber z"
  unfolding hexToDecimal_def parseInt_16_def Let_def
  by (auto split: if_splits dest: roundToDouble_isNumber
      elim!: negate.elims [where y = "Num z"])

subsection \<open>Digits\<close>

lemma hexDigit_cases:
  assumes "(d::nat) < 16"
  obtains "d = 0" | "d = 1" | "d = 2" | "d = 3" | "d = 4" | "d = 5" | "d = 6" | "d = 7"
    | "d = 8" | "d = 9" | "d = 10" | "d = 11" | "d = 12" | "d = 13" | "d = 14" | "d = 15"
proof -
  from assms have "d \<in> {0, 1, 2, 3, 4, 5, 6, 7, 8, 9, 10, 11, 12, 13, 14, 15}"
    by (simp only: insert_iff empty_iff) presburger
  then show thesis
    using that by blast
qed

lemma digitValue_hexDigit: "d < 16 \<Longrightarrow> digitValue (hexDigit d) = Some d"
  by (erule hexDigit_cases) (simp_all add: hexDigit_def digitValue_def)

lemma isLowerHexDigit_hexDigit: "d < 16 \<Longrightarrow> isLowerHexDigit (hexDigit d)"
  by (erule hexDigit_cases) (simp_all add: hexDigit_def isLowerHexDigit_def)

lemma hexDigit_zero: "d < 16 \<Longrightarrow> hexDigit d = CHR ''0'' \<longleftrightarrow> d = 0"
  by (erule hexDigit_cases) (simp_all add: hexDigit_def)

lemma toHexDigits_nonempty: "toHexDigits n \<noteq> []"
  by (subst toHexDigits.simps) simp

lemma toHexDigits_lower: "list_all isLowerHexDigit (toHexDigits n)"
proof (induction n rule: toHexDigits.induct)
  case (1 n)
  show ?case
  proof (cases "n < 16")
    case True
    then show ?thesis
      by (subst toHexDigits.simps) (simp add: isLowerHexDigit_hexDigit)
  next
    case False
    with "1.IH" show ?thesis
      by (subst toHexDigits.simps) (simp add: isLowerHexDigit_hexDigit)
  qed
qed

lemma toHexDigits_hd: "0 < n \<Longrightarrow> hd (toHexDigits n) \<noteq> CHR ''0''"
proof (induction n rule: toHexDigits.induct)
  case (1 n)
  show ?case
  proof (cases "n < 16")
    case True
    with "1.prems" show ?thesis
      by (subst toHexDigits.simps) (simp add: hexDigit_zero)
  next
    case False
    then have "0 < n div 16" by simp
    with "1.IH" False have "hd (toHexDigits (n div 16)) \<noteq> CHR ''0''" by simp
    with False show ?thesis
      by (subst toHexDigits.simps) (simp add: toHexDigits_nonempty)
  qed
qed

lemma mathInt_snoc: "mathInt (Z @ [c]) = mathInt Z * 16 + digitOf c"
  by (simp add: mathInt_def)

lemma mathInt_toHexDigits: "mathInt (toHexDigits n) = n"
proof (induction n rule: toHexDigits.induct)
  case (1 n)
  show ?case
  proof (cases "n < 16")
    case True
    then show ?thesis
      by (subst toHexDigits.simps) (simp add: mathInt_def digitOf_def digitValue_hexDigit)
  next
    case False
    with "1.IH" have "mathInt (toHexDigits (n div 16)) = n div 16" by simp
    with False show ?thesis
      by (subst toHexDigits.simps) (simp add: mathInt_snoc digitOf_def digitValue_hexDigit)
  qed
qed

lemma isLowerHexDigit_props:
  assumes "isLowerHexDigit c"
  shows "isHexDigit c" and "\<not> isWhiteSpace c" and "c \<noteq> CHR ''+''" and "c \<noteq> CHR ''-''"
    and "c \<noteq> CHR ''x''" and "c \<noteq> CHR ''X''" and "digitOf c < 16"
    and "hexDigit (digitOf c) = c"
  using assms
  by (auto simp: isLowerHexDigit_def isHexDigit_def isWhiteSpace_def digitValue_def digitOf_def
      hexDigit_def)

lemma parseInt_16_lower:
  assumes "s \<noteq> []" and "list_all isLowerHexDigit s"
  shows "parseInt_16 s = roundToDouble (mathInt s)"
proof -
  from assms obtain c cs where s: "s = c # cs" by (cases s) auto
  with assms have c: "isLowerHexDigit c" and cs: "list_all isLowerHexDigit cs" by simp_all
  have all: "\<forall>x\<in>set s. isHexDigit x"
    using assms(2) by (auto simp: list_all_iff isLowerHexDigit_props(1))
  have 1: "dropWhile isWhiteSpace s = s"
    using s isLowerHexDigit_props(2) [OF c] by simp
  have 2: "take 2 s \<noteq> ''0x''" "take 2 s \<noteq> ''0X''"
    using s cs by (cases cs; auto simp: isLowerHexDigit_props(5,6))+
  have 3: "takeWhile isHexDigit s = s"
    using all by simp
  have 4: "hd s \<noteq> CHR ''+''" "hd s \<noteq> CHR ''-''"
    using s isLowerHexDigit_props(3,4) [OF c] by simp_all
  show ?thesis
    using assms(1) by (simp add: parseInt_16_def Let_def 1 2 3 4)
qed

lemma mathInt_pos:
  assumes "s \<noteq> []" and "list_all isLowerHexDigit s" and "hd s \<noteq> CHR ''0''"
  shows "0 < mathInt s"
  using assms
proof (induction s rule: rev_induct)
  case Nil
  then show ?case by simp
next
  case (snoc c cs)
  show ?case
  proof (cases "cs = []")
    case True
    with snoc.prems have "isLowerHexDigit c" "c \<noteq> CHR ''0''" by simp_all
    then have "digitOf c \<noteq> 0"
      by (auto simp: isLowerHexDigit_def digitValue_def digitOf_def)
    with True show ?thesis by (simp add: mathInt_def)
  next
    case False
    with snoc have "0 < mathInt cs" by simp
    then show ?thesis by (simp add: mathInt_snoc)
  qed
qed

lemma toHexDigits_mathInt:
  assumes "canonicalHex s"
  shows "toHexDigits (mathInt s) = s"
  using assms
proof (induction s rule: rev_induct)
  case Nil
  then show ?case by (simp add: canonicalHex_def)
next
  case (snoc c cs)
  from snoc.prems have c: "isLowerHexDigit c"
    by (simp add: canonicalHex_def)
  show ?case
  proof (cases "cs = []")
    case True
    then show ?thesis
      using isLowerHexDigit_props(7,8) [OF c]
      by (subst toHexDigits.simps) (simp add: mathInt_def)
  next
    case False
    with snoc.prems have can: "canonicalHex cs" and hd: "hd cs \<noteq> CHR ''0''"
      by (auto simp: canonicalHex_def)
    then have "0 < mathInt cs"
      using False by (intro mathInt_pos) (auto simp: canonicalHex_def)
    then have "\<not> mathInt (cs @ [c]) < 16" and "mathInt (cs @ [c]) div 16 = mathInt cs"
      and "mathInt (cs @ [c]) mod 16 = digitOf c"
      using isLowerHexDigit_props(7) [OF c] by (simp_all add: mathInt_snoc)
    then show ?thesis
      using snoc.IH [OF can] isLowerHexDigit_props(8) [OF c]
      by (subst toHexDigits.simps) simp
  qed
qed

lemma padStart_nonempty: "s \<noteq> [] \<Longrightarrow> padStart s (Suc 0) p = s"
  by (cases s) (simp_all add: padStart_def)

lemma decimalToHex_nat: "decimalToHex (Num (int n)) = toHexDigits n"
  by (simp add: decimalToHex_def padStart_nonempty toHexDigits_nonempty)

subsection \<open>The loop and the search\<close>

text \<open>
  One iteration of the loop either moves on to the next attempt (the probe missed) or ends
  the loop with the detail request (the probe hit); \<open>probeLoop_shape\<close> follows the loop
  to its end, and \<open>findRandomMap_outcome\<close> lists the three ways a search can go.
\<close>

lemma probeLoop_done: "\<not> a < maxAttempts \<Longrightarrow> probeLoop env m a s = (Inr (), s)"
  by (subst probeLoop.simps) simp

lemma probeLoop_miss:
  assumes "a < maxAttempts"
    and "h = decimalToHex (getRandomNumber (mathRandom env (draws s)) (Num 1) m)"
    and "checkMapExists env h (s\<lparr>draws := Suc (draws s)\<rparr>) = (Inr False, s2)"
  shows "probeLoop env m a s = probeLoop env m (Suc a) s2"
  using assms by (subst probeLoop.simps) (simp add: Let_def)

lemma probeLoop_hit:
  assumes "a < maxAttempts"
    and "h = decimalToHex (getRandomNumber (mathRandom env (draws s)) (Num 1) m)"
    and "checkMapExists env h (s\<lparr>draws := Suc (draws s)\<rparr>) = (Inr True, s2)"
    and "outcome = fetchMap env (length (calls s2)) (mapUrl h)"
  shows "probeLoop env m a s =
    (case detailResult outcome of
       Inl e \<Rightarrow> (Inl e, s2\<lparr>calls := calls s2 @ [DetailCall h outcome]\<rparr>)
     | Inr v \<Rightarrow> (Inr (), s2\<lparr>calls := calls s2 @ [DetailCall h outcome], randomMap := v\<rparr>))"
  using assms
  by (subst probeLoop.simps) (simp add: Let_def detailResult_def split: settled.splits sum.splits)

lemma checkMapExists_result:
  "checkMapExists env h s =
     (Inr (existsAt env (length (calls s)) h),
      s\<lparr>calls := calls s @ [ProbeCall h (existsAt env (length (calls s)) h)]\<rparr>)"
  by (simp add: checkMapExists_def existsAt_def Let_def split: settled.splits)

lemma probeLoop_shape:
  "(\<exists>negs. loopExhausted a s (probeLoop env m a s) negs) \<or>
   (\<exists>negs h. loopFound env a s (probeLoop env m a s) negs h)"
proof (induction "maxAttempts - a" arbitrary: a s)
  case 0
  then have "\<not> a < maxAttempts" by simp
  then have "loopExhausted a s (probeLoop env m a s) []"
    by (simp add: probeLoop_done loopExhausted_def)
  then show ?case by blast
next
  case (Suc n)
  then have a: "a < maxAttempts" and n: "n = maxAttempts - Suc a" by simp_all
  define h where "h = decimalToHex (getRandomNumber (mathRandom env (draws s)) (Num 1) m)"
  define s1 where "s1 = s\<lparr>draws := Suc (draws s)\<rparr>"
  define b where "b = existsAt env (length (calls s)) h"
  have chk: "checkMapExists env h s1 = (Inr b, s1\<lparr>calls := calls s1 @ [ProbeCall h b]\<rparr>)"
    by (simp add: checkMapExists_result b_def s1_def)
  define s2 where "s2 = s1\<lparr>calls := calls s1 @ [ProbeCall h b]\<rparr>"
  have s2: "calls s2 = calls s @ [ProbeCall h b]" "randomMap s2 = randomMap s"
    "isLoading s2 = isLoading s" "error s2 = error s"
    by (simp_all add: s2_def s1_def)
  show ?case
  proof (cases b)
    case True
    define outcome where "outcome = fetchMap env (length (calls s2)) (mapUrl h)"
    have eq: "probeLoop env m a s =
      (case detailResult outcome of
         Inl e \<Rightarrow> (Inl e, s2\<lparr>calls := calls s2 @ [DetailCall h outcome]\<rparr>)
       | Inr v \<Rightarrow> (Inr (), s2\<lparr>calls := calls s2 @ [DetailCall h outcome], randomMap := v\<rparr>))"
      using a h_def chk True outcome_def unfolding s1_def s2_def by (intro probeLoop_hit) simp_all
    have "loopFound env a s (probeLoop env m a s) [] h"
      using a s2 True outcome_def b_def
      by (simp add: eq loopFound_def Let_def split: sum.splits)
    then show ?thesis by blast
  next
    case False
    have eq: "probeLoop env m a s = probeLoop env m (Suc a) s2"
      using a h_def chk False unfolding s1_def s2_def by (intro probeLoop_miss) simp_all
    from Suc.hyps(1) [OF n, of s2]
    show ?thesis
    proof
      assume "\<exists>negs. loopExhausted (Suc a) s2 (probeLoop env m (Suc a) s2) negs"
      then obtain negs where "loopExhausted (Suc a) s2 (probeLoop env m (Suc a) s2) negs" ..
      then have "loopExhausted a s (probeLoop env m a s) (ProbeCall h False # negs)"
        using a s2 False by (simp add: eq loopExhausted_def isNegProbe_def)
      then show ?thesis by blast
    next
      assume "\<exists>negs h'. loopFound env (Suc a) s2 (probeLoop env m (Suc a) s2) negs h'"
      then obtain negs h' where "loopFound env (Suc a) s2 (probeLoop env m (Suc a) s2) negs h'"
        by blast
      then have "loopFound env a s (probeLoop env m a s) (ProbeCall h False # negs) h'"
        using a s2 False
        by (auto simp add: eq loopFound_def Let_def isNegProbe_def split: sum.splits)
      then show ?thesis by blast
    qed
  qed
qed

lemma fetchLatestMapId_calls:
  "snd (fetchLatestMapId env s) = s\<lparr>calls := calls s @ [LatestCall]\<rparr>"
  by (simp add: fetchLatestMapId_def Let_def split: settled.splits)

lemma fetchLatestMapId_reset:
  "fst (fetchLatestMapId env (s\<lparr>isLoading := l, error := e, randomMap := v\<rparr>)) = fst (fetchLatestMapId env s)"
  by (simp add: fetchLatestMapId_def Let_def split: settled.splits)

lemma isLoading_findRandomMap: "isLoading (findRandomMap env s) = False"
  by (simp add: findRandomMap_def Let_def split: prod.splits sum.splits)

lemma findRandomMap_outcome:
  fixes env s
  defines "s' \<equiv> findRandomMap env s"
  obtains
    (failed) e where "fst (fetchLatestMapId env s) = Inl e"
      and "newCalls env s = [LatestCall]"
      and "error s' = Some (catchMessage e)" and "randomMap s' = JNull"
  | (exhausted) latestMapId negs where "fst (fetchLatestMapId env s) = Inr latestMapId"
      and "newCalls env s = LatestCall # negs"
      and "list_all isNegProbe negs" and "length negs = maxAttempts"
      and "error s' = Some notFoundMessage" and "randomMap s' = JNull"
  | (found) latestMapId negs h outcome where "fst (fetchLatestMapId env s) = Inr latestMapId"
      and "newCalls env s = LatestCall # negs @ [ProbeCall h True, DetailCall h outcome]"
      and "list_all isNegProbe negs" and "length negs < maxAttempts"
      and "existsAt env (length (calls s) + length negs + 1) h"
      and "outcome = fetchMap env (length (calls s) + length negs + 2) (mapUrl h)"
      and "error s' = (case detailResult outcome of
                         Inl e \<Rightarrow> Some (catchMessage e)
                       | Inr v \<Rightarrow> if truthy v then None else Some notFoundMessage)"
      and "randomMap s' = (case detailResult outcome of Inl e \<Rightarrow> JNull | Inr v \<Rightarrow> v)"
proof -
  define s0 where "s0 = s\<lparr>isLoading := True, error := None, randomMap := JNull\<rparr>"
  define s1 where "s1 = s0\<lparr>calls := calls s0 @ [LatestCall]\<rparr>"
  have fst0: "fst (fetchLatestMapId env s0) = fst (fetchLatestMapId env s)"
    unfolding s0_def by (rule fetchLatestMapId_reset)
  have snd0: "snd (fetchLatestMapId env s0) = s1"
    unfolding s1_def by (rule fetchLatestMapId_calls)
  have s1: "calls s1 = calls s @ [LatestCall]" "randomMap s1 = JNull" "error s1 = None"
    by (simp_all add: s1_def s0_def)
  show thesis
  proof (cases "fst (fetchLatestMapId env s)")
    case (Inl e)
    with fst0 snd0 have "fetchLatestMapId env s0 = (Inl e, s1)"
      by (metis prod.collapse)
    then have "s' = s1\<lparr>error := Some (catchMessage e), isLoading := False\<rparr>"
      by (simp add: s'_def findRandomMap_def tryBlock_def s0_def Let_def)
    with s1 Inl show ?thesis
      by (intro failed [of e]) (simp_all add: newCalls_def s'_def)
  next
    case (Inr latestMapId)
    with fst0 snd0 have latest: "fetchLatestMapId env s0 = (Inr latestMapId, s1)"
      by (metis prod.collapse)
    define res where "res = probeLoop env (hexToDecimal latestMapId) 0 s1"
    have s': "s' = (case fst res of
                     Inl e \<Rightarrow> (snd res)\<lparr>error := Some (catchMessage e), isLoading := False\<rparr>
                   | Inr u \<Rightarrow>
                       if truthy (randomMap (snd res)) then (snd res)\<lparr>isLoading := False\<rparr>
                       else (snd res)\<lparr>error := Some notFoundMessage, isLoading := False\<rparr>)"
      using latest
      by (simp add: s'_def findRandomMap_def tryBlock_def s0_def [symmetric] Let_def res_def
          notFoundMessage_def catchMessage_def split: prod.splits sum.splits)
    from probeLoop_shape [of 0 s1 env "hexToDecimal latestMapId"]
    show ?thesis
    proof
      assume "\<exists>negs. loopExhausted 0 s1 (probeLoop env (hexToDecimal latestMapId) 0 s1) negs"
      then obtain negs where "loopExhausted 0 s1 res negs"
        unfolding res_def ..
      with s1 s' have "newCalls env s = LatestCall # negs" "list_all isNegProbe negs"
        "length negs = maxAttempts" "error s' = Some notFoundMessage" "randomMap s' = JNull"
        by (simp_all add: loopExhausted_def newCalls_def s'_def [symmetric])
      with Inr show ?thesis
        by (intro exhausted [of latestMapId negs])
    next
      assume "\<exists>negs h. loopFound env 0 s1 (probeLoop env (hexToDecimal latestMapId) 0 s1) negs h"
      then obtain negs h where found': "loopFound env 0 s1 res negs h"
        unfolding res_def by blast
      define outcome where "outcome = fetchMap env (length (calls s) + length negs + 2) (mapUrl h)"
      from found' s1 s' have "newCalls env s = LatestCall # negs @ [ProbeCall h True, DetailCall h outcome]"
        "list_all isNegProbe negs" "length negs < maxAttempts"
        "existsAt env (length (calls s) + length negs + 1) h"
        "error s' = (case detailResult outcome of
                         Inl e \<Rightarrow> Some (catchMessage e)
                       | Inr v \<Rightarrow> if truthy v then None else Some notFoundMessage)"
        "randomMap s' = (case detailResult outcome of Inl e \<Rightarrow> JNull | Inr v \<Rightarrow> v)"
        by (auto simp add: loopFound_def Let_def newCalls_def s'_def [symmetric] outcome_def
            split: sum.splits)
      with Inr outcome_def show ?thesis
        by (intro found [of latestMapId negs h outcome])
    qed
  qed
qed

lemma negProbes:
  assumes "list_all isNegProbe negs"
  shows "filter isProbeCall negs = negs" and "\<not> list_ex reportsExistence negs"
    and "ProbeCall h True \<notin> set negs"
  using assms
  by (induction negs)
    (auto simp: isNegProbe_def isProbeCall_def reportsExistence_def split: call.splits)

lemma all_probes_fail:
  assumes "\<And>i mapId. \<not> existsAt env i mapId"
    and "fst (fetchLatestMapId env s) = Inr latestMapId"
  shows "\<exists>negs. newCalls env s = LatestCall # negs \<and> list_all isNegProbe negs
           \<and> length negs = maxAttempts
           \<and> error (findRandomMap env s) = Some notFoundMessage
           \<and> randomMap (findRandomMap env s) = JNull"
  using assms by (cases rule: findRandomMap_outcome [of env s]) auto


subsection \<open>The claims\<close>

text \<open>
  Claim C1. The claim: when a probe has reported existence and the detail request for the
  same id then fails, by a status that is not ok or by a network failure, the search ends
  with a transport error. The script reads the body of the detail response without
  looking at \<^verbatim>\<open>response.ok\<close>. In \<open>envDetail404\<close> the first probe of id 9 succeeds and the
  detail request answers 404 with the body \<^verbatim>\<open>{"error": "Not Found"}\<close>: the search ends
  with that body as \<^verbatim>\<open>randomMap\<close> and with no error.
\<close>

theorem detail_status_unchecked:
  "calls (findRandomMap envDetail404 initial) =
     [LatestCall, ProbeCall ''9'' True,
      DetailCall ''9'' (Fulfilled \<lparr>ok = False, json = Inr notFoundBody\<rparr>)]
   \<and> randomMap (findRandomMap envDetail404 initial) = notFoundBody
   \<and> error (findRandomMap envDetail404 initial) = None"
  by code_simp

text \<open>
  Claim C2, as stated, at a network failure. The claim gives the message
  \<^verbatim>\<open>"Failed to fetch latest map"\<close> to every failure of the latest-map request. When the
  request itself is rejected, the script reports the message of the rejection instead.
\<close>

theorem latest_network_failure_message:
  "fetchLatest envOffline 0 = Rejected (Error ''Failed to fetch'')
   \<and> error (findRandomMap envOffline initial) = Some ''Failed to fetch''
   \<and> error (findRandomMap envOffline initial) \<noteq> Some ''Failed to fetch latest map''"
  by code_simp

text \<open>
  Claim C2, as the script has it. When the latest-map request is answered with a status
  that is not ok, the search ends with the error \<^verbatim>\<open>"Failed to fetch latest map"\<close>; when
  the request is rejected with \<open>e\<close>, it ends with the message the \<^verbatim>\<open>catch\<close> clause takes
  from \<open>e\<close>. In both cases \<^verbatim>\<open>randomMap\<close> is null, loading has ended, and the latest-map
  request is the only request made: no probe.
\<close>

theorem latest_failure:
  fixes env s
  defines "s' \<equiv> findRandomMap env s"
  shows "(fetchLatest env (length (calls s)) = Fulfilled response \<and> \<not> ok response \<longrightarrow>
            error s' = Some ''Failed to fetch latest map'' \<and> randomMap s' = JNull
            \<and> \<not> isLoading s' \<and> newCalls env s = [LatestCall])
       \<and> (fetchLatest env (length (calls s)) = Rejected e \<longrightarrow>
            error s' = Some (catchMessage e) \<and> randomMap s' = JNull
            \<and> \<not> isLoading s' \<and> newCalls env s = [LatestCall])"
proof -
  have *: "error s' = Some (catchMessage x) \<and> randomMap s' = JNull
      \<and> \<not> isLoading s' \<and> newCalls env s = [LatestCall]"
    if "fst (fetchLatestMapId env s) = Inl x" for x
    using that unfolding s'_def
    by (cases rule: findRandomMap_outcome [of env s]) (simp_all add: isLoading_findRandomMap)
  have "fst (fetchLatestMapId env s) = Inl (Error ''Failed to fetch latest map'')"
    if "fetchLatest env (length (calls s)) = Fulfilled response" "\<not> ok response"
    using that by (simp add: fetchLatestMapId_def Let_def)
  moreover have "fst (fetchLatestMapId env s) = Inl e"
    if "fetchLatest env (length (calls s)) = Rejected e"
    using that by (simp add: fetchLatestMapId_def Let_def)
  ultimately show ?thesis
    using * [of "Error ''Failed to fetch latest map''"] * [of e]
    by (simp add: catchMessage_def)
qed

text \<open>
  Claim C2 at two runs: a latest-map request answered with a status that is not ok, and a
  rejected one.
\<close>

theorem latest_failure_witness:
  "error (findRandomMap envLatest500 initial) = Some ''Failed to fetch latest map''
   \<and> newCalls envLatest500 initial = [LatestCall]
   \<and> error (findRandomMap envOffline initial) = Some ''Failed to fetch''
   \<and> newCalls envOffline initial = [LatestCall]"
proof -
  have 1: "fetchLatest envLatest500 (length (calls initial))
      = Fulfilled \<lparr>ok = False, json = Inl (Error ''Unexpected token'')\<rparr>
    \<and> \<not> ok \<lparr>ok = False, json = Inl (Error ''Unexpected token'') :: thrown + string\<rparr>"
    by (simp add: envLatest500_def)
  have 2: "fetchLatest envOffline (length (calls initial)) = Rejected (Error ''Failed to fetch'')"
    by (simp add: envOffline_def)
  show ?thesis
    using latest_failure [of envLatest500 initial "\<lparr>ok = False, json = Inl (Error ''Unexpected token'')\<rparr>" e]
      latest_failure [of envOffline initial response "Error ''Failed to fetch''"] 1 2
    by (simp add: catchMessage_def)
qed

text \<open>
  Claim C3. A search makes at most ten probes. If the latest-map request gave an id, so
  that the loop is entered, and no probe of the search reports existence, the search makes
  exactly ten probes and ends with the error
  \<^verbatim>\<open>"Could not find a valid map after multiple attempts"\<close>.
\<close>

theorem probe_budget:
  shows "length (filter isProbeCall (newCalls env s)) \<le> 10
   \<and> (fst (fetchLatestMapId env s) = Inr latestMapId \<and> \<not> list_ex reportsExistence (newCalls env s) \<longrightarrow>
        length (filter isProbeCall (newCalls env s)) = 10
        \<and> error (findRandomMap env s) = Some ''Could not find a valid map after multiple attempts'')"
proof -
  show ?thesis
  proof (cases rule: findRandomMap_outcome [of env s])
    case (failed e)
    then show ?thesis by (simp add: isProbeCall_def)
  next
    case (exhausted latestMapId' negs)
    then show ?thesis
      using negProbes(1) [of negs]
      by (simp add: isProbeCall_def maxAttempts_def notFoundMessage_def)
  next
    case (found latestMapId' negs h outcome)
    then show ?thesis
      using negProbes(1) [of negs]
      by (simp add: isProbeCall_def maxAttempts_def reportsExistence_def)
  qed
qed

text \<open>
  Claim C3 at the run in which every map request answers 404.
\<close>

theorem probe_budget_witness:
  "fst (fetchLatestMapId envNone initial) = Inr ''10''
   \<and> \<not> list_ex reportsExistence (newCalls envNone initial)
   \<and> length (filter isProbeCall (newCalls envNone initial)) = 10
   \<and> error (findRandomMap envNone initial) = Some ''Could not find a valid map after multiple attempts''"
proof -
  have 1: "fst (fetchLatestMapId envNone initial) = Inr ''10''"
    by code_simp
  have "\<not> existsAt envNone i mapId" for i mapId
    by (simp add: existsAt_def envNone_def)
  from all_probes_fail [OF this 1]
  have 2: "\<not> list_ex reportsExistence (newCalls envNone initial)"
    by (auto simp: negProbes(2) reportsExistence_def)
  show ?thesis
    using probe_budget [of envNone initial "''10''"] 1 2 by simp
qed

text \<open>
  Claim C4. If some probe of a search reports that \<open>h\<close> exists, then the requests of
  the search are: the latest-map request, fewer than ten probes that all missed (so the
  hit is the Nth probe with N at most ten), the probe of \<open>h\<close>, and one detail request for
  \<open>h\<close>, after which nothing follows. If that detail request yields a value that the script
  takes for a map (a truthy one), the search ends with this value as \<^verbatim>\<open>randomMap\<close> and
  without an error.
\<close>

theorem found_stops_search:
  assumes "ProbeCall h True \<in> set (newCalls env s)"
  shows "\<exists>negs outcome.
           newCalls env s = LatestCall # negs @ [ProbeCall h True, DetailCall h outcome]
           \<and> list_all isNegProbe negs \<and> length negs < 10
           \<and> outcome = fetchMap env (length (calls s) + length negs + 2) (mapUrl h)
           \<and> (\<forall>v. detailResult outcome = Inr v \<and> truthy v \<longrightarrow>
                 randomMap (findRandomMap env s) = v \<and> error (findRandomMap env s) = None)"
proof -
  show ?thesis
  proof (cases rule: findRandomMap_outcome [of env s])
    case (failed e)
    with assms show ?thesis by simp
  next
    case (exhausted latestMapId negs)
    with assms negProbes(3) [of negs h] show ?thesis by simp
  next
    case (found latestMapId negs h' outcome)
    with assms negProbes(3) [of negs h] have "h' = h" by simp
    with found show ?thesis
      by (auto simp: maxAttempts_def)
  qed
qed

text \<open>
  Claim C4 at the run in which the third probe, of id a, is the first to succeed.
\<close>

theorem found_stops_search_witness:
  "ProbeCall ''a'' True \<in> set (newCalls envThird initial)
   \<and> newCalls envThird initial =
       [LatestCall, ProbeCall ''5'' False, ProbeCall ''9'' False, ProbeCall ''a'' True,
        DetailCall ''a'' (Fulfilled \<lparr>ok = True, json = Inr mapBody\<rparr>)]
   \<and> randomMap (findRandomMap envThird initial) = mapBody
   \<and> error (findRandomMap envThird initial) = None"
proof -
  have 1: "ProbeCall ''a'' True \<in> set (newCalls envThird initial)"
    by code_simp
  have 2: "newCalls envThird initial =
       [LatestCall, ProbeCall ''5'' False, ProbeCall ''9'' False, ProbeCall ''a'' True,
        DetailCall ''a'' (Fulfilled \<lparr>ok = True, json = Inr mapBody\<rparr>)]"
    by code_simp
  have 3: "detailResult (Fulfilled \<lparr>ok = True, json = Inr mapBody\<rparr>) = Inr mapBody" "truthy mapBody"
    by (simp_all add: detailResult_def mapBody_def)
  from found_stops_search [OF 1] obtain negs outcome where
    "newCalls envThird initial = LatestCall # negs @ [ProbeCall ''a'' True, DetailCall ''a'' outcome]"
    and *: "\<forall>v. detailResult outcome = Inr v \<and> truthy v \<longrightarrow>
           randomMap (findRandomMap envThird initial) = v \<and> error (findRandomMap envThird initial) = None"
    by blast
  with 2 have "outcome = Fulfilled \<lparr>ok = True, json = Inr mapBody\<rparr>"
    by (simp add: append_eq_Cons_conv Cons_eq_append_conv)
  with * 3 have "randomMap (findRandomMap envThird initial) = mapBody \<and> error (findRandomMap envThird initial) = None"
    by blast
  with 1 2 show ?thesis by simp
qed

text \<open>
  Claim C5. \<^verbatim>\<open>checkMapExists\<close> always returns a boolean and never throws; when its
  request is rejected it returns \<^verbatim>\<open>false\<close>. In the loop, a rejected probe leads to the
  next attempt: the loop goes on from the state with the draw and the missed probe
  recorded. When all map requests are rejected, the search still makes its ten probes and
  reports "not found", not the rejection.
\<close>

theorem checkMapExists_total:
  "(\<exists>b s'. checkMapExists env mapId s = (Inr b, s'))
   \<and> (fetchMap env (length (calls s)) (mapUrl mapId) = Rejected e \<longrightarrow>
        fst (checkMapExists env mapId s) = Inr False)
   \<and> (attempts < maxAttempts
        \<and> fetchMap env (length (calls s)) (mapUrl (candidate env maxDecimal s)) = Rejected e \<longrightarrow>
        probeLoop env maxDecimal attempts s =
          probeLoop env maxDecimal (Suc attempts)
            (s\<lparr>draws := Suc (draws s),
               calls := calls s @ [ProbeCall (candidate env maxDecimal s) False]\<rparr>))
   \<and> (fst (fetchLatestMapId env s) = Inr latestMapId
        \<and> (\<forall>i url. \<exists>e. fetchMap env i url = Rejected e) \<longrightarrow>
        length (filter isProbeCall (newCalls env s)) = 10
        \<and> error (findRandomMap env s) = Some ''Could not find a valid map after multiple attempts'')"
proof -
  have total: "\<exists>b s'. checkMapExists env mapId s = (Inr b, s')"
    by (simp add: checkMapExists_result)
  have absorbed: "fst (checkMapExists env mapId s) = Inr False"
    if "fetchMap env (length (calls s)) (mapUrl mapId) = Rejected e"
    using that by (simp add: checkMapExists_result existsAt_def)
  have continues: "probeLoop env maxDecimal attempts s =
      probeLoop env maxDecimal (Suc attempts)
        (s\<lparr>draws := Suc (draws s),
           calls := calls s @ [ProbeCall (candidate env maxDecimal s) False]\<rparr>)"
    if a: "attempts < maxAttempts"
      and r: "fetchMap env (length (calls s)) (mapUrl (candidate env maxDecimal s)) = Rejected e"
  proof -
    from r have "\<not> existsAt env (length (calls s)) (candidate env maxDecimal s)"
      by (simp add: existsAt_def)
    then have "checkMapExists env (candidate env maxDecimal s) (s\<lparr>draws := Suc (draws s)\<rparr>)
      = (Inr False, s\<lparr>draws := Suc (draws s),
           calls := calls s @ [ProbeCall (candidate env maxDecimal s) False]\<rparr>)"
      by (simp add: checkMapExists_result)
    with a show ?thesis
      by (intro probeLoop_miss) (simp_all add: candidate_def)
  qed
  have hidden: "length (filter isProbeCall (newCalls env s)) = 10
      \<and> error (findRandomMap env s) = Some ''Could not find a valid map after multiple attempts''"
    if l: "fst (fetchLatestMapId env s) = Inr latestMapId"
      and r: "\<forall>i url. \<exists>e. fetchMap env i url = Rejected e"
  proof -
    have "\<not> existsAt env i h" for i h
    proof -
      from r obtain e' where "fetchMap env i (mapUrl h) = Rejected e'" by blast
      then show ?thesis by (simp add: existsAt_def)
    qed
    from all_probes_fail [OF this l] obtain negs where
      "newCalls env s = LatestCall # negs" "list_all isNegProbe negs" "length negs = maxAttempts"
      "error (findRandomMap env s) = Some notFoundMessage"
      by blast
    then show ?thesis
      using negProbes(1) [of negs]
      by (simp add: isProbeCall_def maxAttempts_def notFoundMessage_def)
  qed
  from total absorbed continues hidden show ?thesis
    by blast
qed

text \<open>
  Claim C5 at the run in which every map request is rejected.
\<close>

theorem checkMapExists_total_witness:
  "fst (checkMapExists envProbesDown ''9'' initial) = Inr False
   \<and> probeLoop envProbesDown (Num 16) 0 initial =
       probeLoop envProbesDown (Num 16) 1
         (initial\<lparr>draws := 1, calls := [ProbeCall ''9'' False]\<rparr>)
   \<and> length (filter isProbeCall (newCalls envProbesDown initial)) = 10
   \<and> error (findRandomMap envProbesDown initial)
       = Some ''Could not find a valid map after multiple attempts''"
proof -
  have 1: "fetchMap envProbesDown i url = Rejected (Error ''Failed to fetch'')" for i url
    by (simp add: envProbesDown_def)
  have 2: "fst (fetchLatestMapId envProbesDown initial) = Inr ''10''"
    by code_simp
  have 3: "candidate envProbesDown (Num 16) initial = ''9''"
    by code_simp
  have 4: "(0::nat) < maxAttempts"
    by (simp add: maxAttempts_def)
  have 5: "\<forall>i url. \<exists>e. fetchMap envProbesDown i url = Rejected e"
    using 1 by blast
  show ?thesis
    using checkMapExists_total [of envProbesDown "''9''" initial "Error ''Failed to fetch''"
        0 "Num 16" "''10''"] 1 2 3 4 5
    by (simp add: initial_def)
qed

text \<open>
  Claim C6. For every integer \<open>n\<close> from 1 to \<^verbatim>\<open>0xFFFFFF\<close> (16777215),
  \<^verbatim>\<open>hexToDecimal(decimalToHex(n))\<close> is \<open>n\<close>.
\<close>

theorem hex_roundtrip:
  "1 \<le> n \<and> n \<le> 16777215 \<longrightarrow> hexToDecimal (decimalToHex (Num n)) = Num n"
proof
  assume n: "1 \<le> n \<and> n \<le> 16777215"
  define k where "k = nat n"
  with n have nk: "n = int k" and "k \<le> 16777215" by (simp_all add: nat_le_iff)
  then have k: "k < 2 ^ 53" by simp
  have "hexToDecimal (decimalToHex (Num (int k))) = roundToDouble (mathInt (toHexDigits k))"
    unfolding decimalToHex_nat hexToDecimal_def
    by (rule parseInt_16_lower) (simp_all add: toHexDigits_nonempty toHexDigits_lower)
  also have "\<dots> = Num (int k)"
    using k by (simp add: mathInt_toHexDigits roundToDouble_exact)
  finally show "hexToDecimal (decimalToHex (Num n)) = Num n"
    by (simp add: nk)
qed

text \<open>
  Claim C6 at 255.
\<close>

theorem hex_roundtrip_witness:
  "(1::int) \<le> 255 \<and> (255::int) \<le> 16777215 \<and> hexToDecimal (decimalToHex (Num 255)) = Num 255"
  using hex_roundtrip [of 255] by simp

text \<open>
  Claim C7. For a positive integer, \<^verbatim>\<open>decimalToHex\<close> returns a string that is not empty,
  has only the digits \<^verbatim>\<open>0-9a-f\<close>, and does not start with a zero; 1 gives \<^verbatim>\<open>"1"\<close> and 255
  gives \<^verbatim>\<open>"ff"\<close>.
\<close>

theorem decimalToHex_canonical:
  "(0 < n \<longrightarrow>
      decimalToHex (Num n) \<noteq> [] \<and> list_all isLowerHexDigit (decimalToHex (Num n))
      \<and> hd (decimalToHex (Num n)) \<noteq> CHR ''0'')
   \<and> decimalToHex (Num 1) = ''1'' \<and> decimalToHex (Num 255) = ''ff''"
proof -
  have "decimalToHex (Num n) \<noteq> [] \<and> list_all isLowerHexDigit (decimalToHex (Num n))
      \<and> hd (decimalToHex (Num n)) \<noteq> CHR ''0''" if "0 < n"
  proof -
    define k where "k = nat n"
    with that have "n = int k" and "0 < k" by simp_all
    then show ?thesis
      by (simp add: decimalToHex_nat toHexDigits_nonempty toHexDigits_lower toHexDigits_hd)
  qed
  moreover have "decimalToHex (Num 1) = ''1''" and "decimalToHex (Num 255) = ''ff''"
    by code_simp+
  ultimately show ?thesis by blast
qed

text \<open>
  Claim C7 at 1000.
\<close>

theorem decimalToHex_canonical_witness:
  "(0::int) < 1000 \<and> decimalToHex (Num 1000) = ''3e8''
   \<and> list_all isLowerHexDigit (decimalToHex (Num 1000))
   \<and> hd (decimalToHex (Num 1000)) \<noteq> CHR ''0''"
proof -
  have "decimalToHex (Num 1000) = ''3e8''" by code_simp
  with decimalToHex_canonical [of 1000] show ?thesis by simp
qed

text \<open>
  Claim C8. For every Number \<open>maxId\<close> that is an integer of at least 1 and every value
  \<open>u\<close> that \<^verbatim>\<open>Math.random()\<close> can return, \<^verbatim>\<open>getRandomNumber(1, maxId)\<close> is an integer
  from 1 to \<open>maxId\<close>. Every step is rounded as the machine rounds it: the subtraction,
  the two additions and the product. The bound that \<^verbatim>\<open>findRandomMap\<close> passes is a value
  of \<^verbatim>\<open>hexToDecimal\<close>, and every integer that \<^verbatim>\<open>hexToDecimal\<close> returns is such a Number.
\<close>

theorem getRandomNumber_in_range:
  "(isRandomValue u \<and> 1 \<le> maxId \<and> isNumber maxId \<longrightarrow>
      (\<exists>c. getRandomNumber u (Num 1) (Num maxId) = Num c \<and> 1 \<le> c \<and> c \<le> maxId))
   \<and> (hexToDecimal latestMapId = Num maxId \<longrightarrow> isNumber maxId)"
proof (rule conjI)
  show "isRandomValue u \<and> 1 \<le> maxId \<and> isNumber maxId \<longrightarrow>
      (\<exists>c. getRandomNumber u (Num 1) (Num maxId) = Num c \<and> 1 \<le> c \<and> c \<le> maxId)"
  proof
    assume a: "isRandomValue u \<and> 1 \<le> maxId \<and> isNumber maxId"
    then obtain n where n: "maxId = int n"
      using zero_le_imp_eq_int [of maxId] by auto
    with a have pos: "0 < n" and num: "isNumber (int n)" by simp_all
    from a have u: "numerator u < 2 ^ 53" "numerator u < 2 ^ scale u"
      by (simp_all add: isRandomValue_def)
    from getRandomNumber_value [OF u isNumber_nat [OF num] pos] obtain c where
      "getRandomNumber u (Num 1) (Num (int n)) = Num (int c)" "1 \<le> c" "c \<le> n"
      by blast
    then show "\<exists>c. getRandomNumber u (Num 1) (Num maxId) = Num c \<and> 1 \<le> c \<and> c \<le> maxId"
      unfolding n by (intro exI [of _ "int c"]) simp
  qed
  show "hexToDecimal latestMapId = Num maxId \<longrightarrow> isNumber maxId"
    by (simp add: hexToDecimal_isNumber)
qed

text \<open>
  Claim C8 at the draw 9/16 and the bound 16, the value of the identifier 10.
\<close>

theorem getRandomNumber_in_range_witness:
  "isRandomValue \<lparr>numerator = 9, scale = 4\<rparr> \<and> (1::int) \<le> 16 \<and> isNumber 16
   \<and> hexToDecimal ''10'' = Num 16
   \<and> getRandomNumber \<lparr>numerator = 9, scale = 4\<rparr> (Num 1) (Num 16) = Num 10"
proof -
  have 1: "isRandomValue \<lparr>numerator = 9, scale = 4\<rparr>" by (simp add: isRandomValue_def)
  have 2: "hexToDecimal ''10'' = Num 16" by code_simp
  have 3: "getRandomNumber \<lparr>numerator = 9, scale = 4\<rparr> (Num 1) (Num 16) = Num 10" by code_simp
  from getRandomNumber_in_range [of "\<lparr>numerator = 9, scale = 4\<rparr>" 16 "''10''"] 1 2 3
  show ?thesis by simp
qed

text \<open>
  Claim C9, as stated, at a falsy body. The claim: after a search, exactly one of
  \<^verbatim>\<open>randomMap\<close> and \<^verbatim>\<open>error\<close> is not null. When the detail request yields the JSON value
  \<^verbatim>\<open>false\<close>, the script stores it, finds \<^verbatim>\<open>!randomMap\<close> true and throws "not found":
  afterwards \<^verbatim>\<open>randomMap\<close> is \<^verbatim>\<open>false\<close>, which is not null, and \<^verbatim>\<open>error\<close> is set.
\<close>

theorem falsy_detail_body:
  "randomMap (findRandomMap envDetailFalse initial) = JBool False
   \<and> randomMap (findRandomMap envDetailFalse initial) \<noteq> JNull
   \<and> error (findRandomMap envDetailFalse initial)
       = Some ''Could not find a valid map after multiple attempts''
   \<and> error (findRandomMap envDetailFalse initial) \<noteq> None"
  by code_simp

text \<open>
  Claim C9, as the script has it. After every search the loading flag is cleared, and
  exactly one of these holds: \<^verbatim>\<open>randomMap\<close> is truthy (the page shows the map), or
  \<^verbatim>\<open>error\<close> is not null.
\<close>

theorem settled_exclusive:
  "\<not> isLoading (findRandomMap env s)
   \<and> truthy (randomMap (findRandomMap env s)) = (error (findRandomMap env s) = None)"
  by (cases rule: findRandomMap_outcome [of env s])
    (simp_all add: isLoading_findRandomMap split: sum.splits)

text \<open>
  Claim C10, as stated, at a long identifier. The claim: every canonical lowercase
  hexadecimal string is restored by \<^verbatim>\<open>decimalToHex(hexToDecimal(s))\<close>. The string
  \<^verbatim>\<open>"20000000000001"\<close> has the value \<open>2 ^ 53 + 1\<close>, which no Number holds: \<^verbatim>\<open>parseInt\<close>
  gives \<open>2 ^ 53\<close>, printed as \<^verbatim>\<open>"20000000000000"\<close>.
\<close>

theorem long_identifier_not_restored:
  "canonicalHex ''20000000000001''
   \<and> decimalToHex (hexToDecimal ''20000000000001'') = ''20000000000000''"
  by code_simp

text \<open>
  Claim C10, within the exact range of Number. Every canonical lowercase hexadecimal
  string whose value is below \<open>2 ^ 53\<close> is restored by
  \<^verbatim>\<open>decimalToHex(hexToDecimal(s))\<close>.
\<close>

theorem canonical_roundtrip:
  assumes "canonicalHex s" and "mathInt s < 2 ^ 53"
  shows "decimalToHex (hexToDecimal s) = s"
proof -
  have "hexToDecimal s = roundToDouble (mathInt s)"
    unfolding hexToDecimal_def using assms(1)
    by (intro parseInt_16_lower) (simp_all add: canonicalHex_def)
  also have "\<dots> = Num (int (mathInt s))"
    using assms(2) by (rule roundToDouble_exact)
  finally show ?thesis
    by (simp add: decimalToHex_nat toHexDigits_mathInt [OF assms(1)])
qed

text \<open>
  Claim C10 at the identifier 3f2a1.
\<close>

theorem canonical_roundtrip_witness:
  "canonicalHex ''3f2a1'' \<and> mathInt ''3f2a1'' < 2 ^ 53
   \<and> decimalToHex (hexToDecimal ''3f2a1'') = ''3f2a1''"
proof -
  have 1: "canonicalHex ''3f2a1''" by code_simp
  have 2: "mathInt ''3f2a1'' < 2 ^ 53" by code_simp
  from canonical_roundtrip [OF 1 2] 1 2 show ?thesis by simp
qed

end
